theory Spec2Isabelle
  imports Complex_Main "HOL-Library.Word" "HOL-Library.Signed_Division"
begin

unbundle bit_operations_syntax

chapter \<open>Connect samples: a shallow embedding of the console and command-line logic\<close>

text \<open>
  The samples call into the Omniverse Client Library, the Connect SDK and USD. Those
  libraries are not part of the repository, so every call into them is recorded as an
  event of a trace, and every value they return is an input of the model. What the
  repository itself computes (the tokenizer, the ACL update, the byte classification of
  \<open>cat\<close>, the menus and their loops, the geometry tables) is translated function by
  function.
\<close>

section \<open>Characters\<close>

abbreviation NL :: char where "NL \<equiv> CHR 0x0A"
abbreviation TAB :: char where "TAB \<equiv> CHR 0x09"
abbreviation CR :: char where "CR \<equiv> CHR 0x0D"
abbreviation SP :: char where "SP \<equiv> CHR 0x20"
abbreviation DQ :: char where "DQ \<equiv> CHR 0x22"
abbreviation BS :: char where "BS \<equiv> CHR 0x5C"

section \<open>omnicli.cpp: tokenize\<close>

text \<open>
  \<open>tokenize(char const* line)\<close>. The argument is the text of the C string, that is, the
  characters before its terminating NUL. The locals of the loop are the arguments of
  \<open>tokenize_loop\<close>: \<open>tokens\<close>, \<open>token\<close>, \<open>inWhiteSpace\<close>, \<open>inQuote\<close> and the
  \<open>uint32_t backslashCount\<close>, whose increment wraps at \<open>2 ^ 32\<close>.
\<close>

definition is_blank :: "char \<Rightarrow> bool" where
  "is_blank c = (c = SP \<or> c = TAB)"

text \<open>\<open>if (backslashCount > 0) token.append(backslashCount, '\\')\<close>\<close>

definition flush_backslashes :: "string \<Rightarrow> nat \<Rightarrow> string" where
  "flush_backslashes token backslashCount =
     (if backslashCount > 0 then token @ replicate backslashCount BS else token)"

text \<open>The code after the loop: flush the pending backslashes, keep a non-empty token.\<close>

definition tokenize_end :: "string list \<Rightarrow> string \<Rightarrow> nat \<Rightarrow> string list" where
  "tokenize_end tokens token backslashCount =
     (let token' = flush_backslashes token backslashCount
      in if token' \<noteq> [] then tokens @ [token'] else tokens)"

fun tokenize_loop ::
  "string \<Rightarrow> string list \<Rightarrow> string \<Rightarrow> bool \<Rightarrow> bool \<Rightarrow> nat \<Rightarrow> string list" where
  "tokenize_loop [] tokens token inWhiteSpace inQuote backslashCount =
     tokenize_end tokens token backslashCount"
| "tokenize_loop (p # ps) tokens token inWhiteSpace inQuote backslashCount =
     (if p = NL then tokenize_end tokens token backslashCount
      else if inWhiteSpace \<and> is_blank p then
        tokenize_loop ps tokens token inWhiteSpace inQuote backslashCount
      else if p = BS then
        tokenize_loop ps tokens token False inQuote ((backslashCount + 1) mod 2 ^ 32)
      else if p = DQ then
        (if backslashCount mod 2 = 1
         then tokenize_loop ps tokens
                (token @ replicate (backslashCount div 2) BS @ [DQ]) False inQuote 0
         else tokenize_loop ps tokens
                (token @ replicate (backslashCount div 2) BS) False (\<not> inQuote) 0)
      else if \<not> inQuote \<and> is_blank p then
        tokenize_loop ps (tokens @ [flush_backslashes token backslashCount]) [] True inQuote 0
      else
        tokenize_loop ps tokens (flush_backslashes token backslashCount @ [p]) False inQuote 0)"

definition tokenize :: "string \<Rightarrow> string list" where
  "tokenize line = tokenize_loop line [] [] True False 0"

text \<open>
  The reference the tokenizer is compared with on lines without quotes and backslashes:
  the maximal runs of characters that are neither a space nor a tab, from left to right.
\<close>

function words_of :: "string \<Rightarrow> string list" where
  "words_of [] = []"
| "words_of (c # cs) =
     (if is_blank c then words_of cs
      else (c # takeWhile (\<lambda>x. \<not> is_blank x) cs)
             # words_of (dropWhile (\<lambda>x. \<not> is_blank x) cs))"
  by pat_completeness auto
termination
  by (relation "measure length") (auto simp: less_Suc_eq_le length_dropWhile_le)

section \<open>omnicli.cpp: results, return codes and the trace of a command\<close>

text \<open>
  \<open>OmniClientResult\<close> is declared in \<open>OmniClient.h\<close>, which is not in the repository. The
  code names three of its enumerators; every other one is \<open>eOmniClientResult_Other n\<close>.
\<close>

datatype OmniClientResult =
    eOmniClientResult_Ok
  | eOmniClientResult_OkLatest
  | eOmniClientResult_OkNotYetFound
  | eOmniClientResult_Other nat

definition EXIT_SUCCESS :: int where "EXIT_SUCCESS = 0"
definition EXIT_FAILURE :: int where "EXIT_FAILURE = 1"

fun resultToRetcode :: "OmniClientResult \<Rightarrow> int" where
  "resultToRetcode eOmniClientResult_Ok = EXIT_SUCCESS"
| "resultToRetcode eOmniClientResult_OkLatest = EXIT_SUCCESS"
| "resultToRetcode eOmniClientResult_OkNotYetFound = EXIT_SUCCESS"
| "resultToRetcode (eOmniClientResult_Other n) = EXIT_FAILURE"

text \<open>
  What a command does besides returning: its output and its calls into the client library,
  in order. \<open>Printf\<close> carries the formatted text; \<open>PrintResult\<close> is
  \<open>printResult(result)\<close>; \<open>PrintfTooLarge n\<close> is
  \<open>printf("File too large to cat: %zu bytes.\n", n)\<close>; \<open>PrintHexWord w sep\<close> is
  \<open>printf("%8x%c", w, sep)\<close>.
\<close>

type_synonym acl_entry = "string \<times> 16 word"

datatype cli_event =
    Printf string
  | PrintResult OmniClientResult
  | PrintfTooLarge nat
  | PrintHexWord "32 word" char
  | OmniClientReconnect string
  | OmniClientGetAcls string
  | OmniClientSetAcls string "acl_entry list"
  | OmniClientCreateCheckpoint string string bool
  | OmniClientCopy string string
  | OmniClientReadFile string
  | OmniClientFreeUrl
  | OmniClientFreeBranchAndCheckpoint
  | OmniClientLiveProcess

section \<open>omnicli.cpp: setacls\<close>

text \<open>
  The access flags \<open>fOmniClientAccess_Read\<close>, \<open>_Write\<close> and \<open>_Admin\<close> are constants of
  \<open>OmniClient.h\<close>; they are parameters of the model.
\<close>

record OmniClientAccessFlags =
  fOmniClientAccess_Read :: "16 word"
  fOmniClientAccess_Write :: "16 word"
  fOmniClientAccess_Admin :: "16 word"

text \<open>C's \<open>toupper\<close> in the "C" locale: the lower-case letters move to upper case.\<close>

definition toupper :: "char \<Rightarrow> char" where
  "toupper c =
     (let n = (of_char c :: nat) in if 97 \<le> n \<and> n \<le> 122 then char_of (n - 32) else c)"

text \<open>
  The loop over \<open>accessStr\<close>, with the locals \<open>removeEntry\<close> and \<open>access\<close>. \<open>None\<close> is the
  \<open>default\<close> case of the switch, which prints "Unknown access" and returns.
\<close>

fun parse_access ::
  "OmniClientAccessFlags \<Rightarrow> string \<Rightarrow> bool \<Rightarrow> 16 word \<Rightarrow> (bool \<times> 16 word) option" where
  "parse_access fl [] removeEntry access = Some (removeEntry, access)"
| "parse_access fl (p # ps) removeEntry access =
     (if toupper p = CHR ''A'' then
        parse_access fl ps removeEntry (access OR fOmniClientAccess_Admin fl)
      else if toupper p = CHR ''W'' then
        parse_access fl ps removeEntry (access OR fOmniClientAccess_Write fl)
      else if toupper p = CHR ''R'' then
        parse_access fl ps removeEntry (access OR fOmniClientAccess_Read fl)
      else if toupper p = CHR ''-'' then
        parse_access fl ps True access
      else None)"

text \<open>
  The loop over the fetched entries, with the locals \<open>entries\<close> and \<open>found\<close>: an entry of
  the given name sets \<open>found\<close>, every other entry is pushed onto \<open>entries\<close>.
\<close>

fun acl_loop :: "string \<Rightarrow> acl_entry list \<Rightarrow> acl_entry list \<Rightarrow> bool \<Rightarrow> acl_entry list \<times> bool" where
  "acl_loop name [] entries found = (entries, found)"
| "acl_loop name (it # rest) entries found =
     (if fst it = name then acl_loop name rest entries True
      else acl_loop name rest (entries @ [it]) found)"

text \<open>
  \<open>setacls(args)\<close>. \<open>getAclsResult\<close> is what the callback of \<open>omniClientGetAcls\<close> receives
  (the result and the entries), \<open>setAclsResult\<close> what the callback of
  \<open>omniClientSetAcls\<close> receives. The value is the trace and the return code.
\<close>

definition setacls ::
  "OmniClientAccessFlags \<Rightarrow> string list \<Rightarrow> OmniClientResult \<times> acl_entry list \<Rightarrow>
   OmniClientResult \<Rightarrow> cli_event list \<times> int" where
  "setacls fl args getAclsResult setAclsResult =
     (if length args \<le> 3 then ([Printf (''Not enough arguments'' @ [NL])], EXIT_FAILURE)
      else
        let url = args ! 1; name = args ! 2; accessStr = args ! 3 in
        case parse_access fl accessStr False 0 of
          None \<Rightarrow> ([Printf (''Unknown access '' @ [DQ] @ accessStr @ [DQ, NL])], EXIT_FAILURE)
        | Some (removeEntry, access) \<Rightarrow>
            let fetch = [OmniClientReconnect url, OmniClientGetAcls url] in
            if fst getAclsResult \<noteq> eOmniClientResult_Ok then
              (fetch @ [PrintResult (fst getAclsResult)], EXIT_FAILURE)
            else
              let (entries, found) = acl_loop name (snd getAclsResult) [] False in
              if removeEntry \<and> \<not> found then
                (fetch @ [Printf (name @ '' not in the ACLs list'' @ [NL])], EXIT_FAILURE)
              else
                let entries' = (if removeEntry then entries else entries @ [(name, access)]) in
                (fetch @ [OmniClientSetAcls url entries'] @
                   (if setAclsResult \<noteq> eOmniClientResult_Ok then [PrintResult setAclsResult]
                    else []),
                 resultToRetcode setAclsResult))"

text \<open>The calls of \<open>omniClientSetAcls\<close> in a trace: the URL and the entry list of each.\<close>

fun setAcls_calls :: "cli_event list \<Rightarrow> (string \<times> acl_entry list) list" where
  "setAcls_calls [] = []"
| "setAcls_calls (OmniClientSetAcls url es # evs) = (url, es) # setAcls_calls evs"
| "setAcls_calls (_ # evs) = setAcls_calls evs"

text \<open>The access bits of an access string: one flag for each of r, w, a present.\<close>

definition access_bits :: "OmniClientAccessFlags \<Rightarrow> string \<Rightarrow> 16 word" where
  "access_bits fl accessStr =
     (if CHR ''r'' \<in> set accessStr \<or> CHR ''R'' \<in> set accessStr
      then fOmniClientAccess_Read fl else 0)
     OR (if CHR ''w'' \<in> set accessStr \<or> CHR ''W'' \<in> set accessStr
      then fOmniClientAccess_Write fl else 0)
     OR (if CHR ''a'' \<in> set accessStr \<or> CHR ''A'' \<in> set accessStr
      then fOmniClientAccess_Admin fl else 0)"

section \<open>omnicli.cpp: cat\<close>

text \<open>
  The bytes of the file are \<open>char\<close>s (8 bits each) read as \<open>uint8_t\<close>. The loop that sets
  \<open>isAscii\<close>, with its \<open>break\<close> at the first byte that is not text:
\<close>

fun isAscii_loop :: "char list \<Rightarrow> bool" where
  "isAscii_loop [] = True"
| "isAscii_loop (b # bs) =
     (if b = NL \<or> b = TAB \<or> b = CR then isAscii_loop bs
      else if (of_char b :: nat) \<ge> 127 \<or> (of_char b :: nat) < 32 then False
      else isAscii_loop bs)"

text \<open>
  \<open>printf("%.*s\n", (int)content->size, buffer)\<close> prints the bytes of the buffer up to
  its size or to the first NUL, then a newline.
\<close>

definition printf_text :: "char list \<Rightarrow> cli_event" where
  "printf_text buffer = Printf (takeWhile (\<lambda>b. b \<noteq> CHR 0x00) buffer @ [NL])"

text \<open>
  The dump reads the buffer as \<open>uint32_t\<close> words (little-endian), one for every four
  bytes begun. When the size is not a multiple of 4 the last word takes its missing
  bytes from \<open>beyond\<close>, the memory that follows the buffer.
\<close>

definition le_word32 :: "char list \<Rightarrow> 32 word" where
  "le_word32 bs = foldr (\<lambda>b w. of_nat (of_char b) + 256 * w) bs 0"

function hex_loop :: "char list \<Rightarrow> nat \<Rightarrow> nat \<Rightarrow> cli_event list" where
  "hex_loop mem sz i =
     (if i < sz
      then PrintHexWord (le_word32 (take 4 (drop i mem))) (if i mod 32 = 0 then NL else SP)
             # hex_loop mem sz (i + 4)
      else [])"
  by pat_completeness auto
termination
  by (relation "measure (\<lambda>(mem, sz, i). sz - i)") auto

declare hex_loop.simps [simp del]

text \<open>
  \<open>cat(args)\<close>. \<open>result\<close> and \<open>content\<close> are what the callback of \<open>omniClientReadFile\<close>
  receives.
\<close>

definition cat ::
  "string list \<Rightarrow> OmniClientResult \<Rightarrow> char list \<Rightarrow> char list \<Rightarrow> cli_event list \<times> int" where
  "cat args result content beyond =
     (if length args \<le> 1 then ([Printf (''Not enough arguments'' @ [NL])], EXIT_FAILURE)
      else
        let retCode = resultToRetcode result;
            call = [OmniClientReconnect (args ! 1), OmniClientReadFile (args ! 1)] in
        if result \<noteq> eOmniClientResult_Ok then (call @ [PrintResult result], retCode)
        else if length content > 1 * 1000 * 1000 then
          (call @ [PrintfTooLarge (length content)], retCode)
        else if isAscii_loop content then (call @ [printf_text content], retCode)
        else (call @ hex_loop (content @ beyond) (length content) 0 @ [Printf [NL]], retCode))"

text \<open>Text bytes: newline, tab, carriage return and the codes 32 to 126.\<close>

definition is_text_byte :: "char \<Rightarrow> bool" where
  "is_text_byte b =
     (b = NL \<or> b = TAB \<or> b = CR \<or> (32 \<le> (of_char b :: nat) \<and> (of_char b :: nat) < 127))"

section \<open>omnicli.cpp: makeCheckpoint and restoreCheckpoint\<close>

text \<open>\<open>makeCheckpoint(args)\<close>; the callback receives \<open>result\<close> and \<open>checkpointQuery\<close>.\<close>

definition makeCheckpoint ::
  "string list \<Rightarrow> OmniClientResult \<Rightarrow> string \<Rightarrow> cli_event list \<times> int" where
  "makeCheckpoint args result checkpointQuery =
     (if length args \<le> 1 then ([Printf (''Not enough arguments'' @ [NL])], EXIT_FAILURE)
      else
        let comment = (if length args > 2 then args ! 2 else []);
            bForce = True in
        ([OmniClientReconnect (args ! 1),
          OmniClientCreateCheckpoint (args ! 1) comment bForce]
         @ (if result \<noteq> eOmniClientResult_Ok then [PrintResult result]
            else [Printf (''Checkpoint created as '' @ checkpointQuery @ [NL])]),
         resultToRetcode result))"

text \<open>
  The URL functions of the client library are not in the repository; they are parameters.
  A \<open>char*\<close> result that may be null is an \<open>option\<close>: \<open>omniClientCombineWithBaseUrl\<close>
  returns null when the buffer of \<open>MAX_URL_SIZE\<close> bytes is too small,
  \<open>omniClientGetBranchAndCheckpointFromQuery\<close> returns null when the query holds no
  checkpoint ("No checkpoint provided" in the code), and
  \<open>omniClientMakeQueryFromBranchAndCheckpoint\<close> and \<open>omniClientMakeUrl\<close> return the
  buffer they were given (\<open>Some\<close> of its text) unless the text does not fit.
\<close>

record OmniClientUrl =
  url_scheme :: "string option"
  url_user :: "string option"
  url_host :: "string option"
  url_port :: "string option"
  url_path :: "string option"
  url_query :: "string option"
  url_fragment :: "string option"
  url_isRaw :: bool

record OmniClientBranchAndCheckpoint =
  bc_branch :: string
  bc_checkpoint :: "64 word"

record OmniClientUrlLib =
  omniClientCombineWithBaseUrl :: "string \<Rightarrow> string option"
  omniClientBreakUrl :: "string \<Rightarrow> OmniClientUrl"
  omniClientGetBranchAndCheckpointFromQuery ::
    "string option \<Rightarrow> OmniClientBranchAndCheckpoint option"
  omniClientMakeQueryFromBranchAndCheckpoint :: "string \<Rightarrow> 64 word \<Rightarrow> string option"
  omniClientMakeUrl :: "OmniClientUrl \<Rightarrow> string option"

definition restoreCheckpoint ::
  "OmniClientUrlLib \<Rightarrow> string list \<Rightarrow> OmniClientResult \<Rightarrow> cli_event list \<times> int" where
  "restoreCheckpoint lib args copyResult =
     (if length args \<le> 1 then ([Printf (''Not enough arguments'' @ [NL])], EXIT_FAILURE)
      else
        case omniClientCombineWithBaseUrl lib (args ! 1) of
          None \<Rightarrow> ([Printf (''URL too long'' @ [NL])], EXIT_FAILURE)
        | Some combined \<Rightarrow>
            let brokenUrl = omniClientBreakUrl lib combined in
            case omniClientGetBranchAndCheckpointFromQuery lib (url_query brokenUrl) of
              None \<Rightarrow>
                ([Printf (''No checkpoint provided'' @ [NL]), OmniClientFreeUrl], EXIT_FAILURE)
            | Some branchCheckpoint \<Rightarrow>
                (case omniClientMakeQueryFromBranchAndCheckpoint lib
                        (bc_branch branchCheckpoint) 0 of
                  None \<Rightarrow>
                    ([Printf (''Query string buffer overflow'' @ [NL]),
                      OmniClientFreeBranchAndCheckpoint, OmniClientFreeUrl], EXIT_FAILURE)
                | Some queryString \<Rightarrow>
                    (case omniClientMakeUrl lib (brokenUrl\<lparr>url_query := Some queryString\<rparr>) of
                      None \<Rightarrow>
                        ([Printf (''URL buffer overflow'' @ [NL]),
                          OmniClientFreeBranchAndCheckpoint, OmniClientFreeUrl], EXIT_FAILURE)
                    | Some dstUrl \<Rightarrow>
                        ([OmniClientReconnect (args ! 1), OmniClientCopy (args ! 1) dstUrl]
                         @ (if copyResult \<noteq> eOmniClientResult_Ok then [PrintResult copyResult]
                            else []),
                         resultToRetcode copyResult))))"

text \<open>The calls of \<open>omniClientCreateCheckpoint\<close> and of \<open>omniClientCopy\<close> in a trace.\<close>

fun createCheckpoint_calls :: "cli_event list \<Rightarrow> (string \<times> string \<times> bool) list" where
  "createCheckpoint_calls [] = []"
| "createCheckpoint_calls (OmniClientCreateCheckpoint url comment force # evs) =
     (url, comment, force) # createCheckpoint_calls evs"
| "createCheckpoint_calls (_ # evs) = createCheckpoint_calls evs"

fun copy_calls :: "cli_event list \<Rightarrow> (string \<times> string) list" where
  "copy_calls [] = []"
| "copy_calls (OmniClientCopy src dst # evs) = (src, dst) # copy_calls evs"
| "copy_calls (_ # evs) = copy_calls evs"

text \<open>
  A small instance of the URL functions, to run \<open>restoreCheckpoint\<close> on examples: the
  base URL is \<open>omniverse://host/\<close>, a URL is a path and an optional query after \<open>?\<close>,
  and the only checkpoint query is \<open>&3\<close> (default branch, checkpoint 3).
\<close>

definition example_url_lib :: OmniClientUrlLib where
  "example_url_lib =
     \<lparr>omniClientCombineWithBaseUrl = (\<lambda>u. Some (''omniverse://host/'' @ u)),
      omniClientBreakUrl = (\<lambda>u.
        \<lparr>url_scheme = None, url_user = None, url_host = None, url_port = None,
         url_path = Some (takeWhile (\<lambda>c. c \<noteq> CHR ''?'') u),
         url_query = (if CHR ''?'' \<in> set u
                      then Some (tl (dropWhile (\<lambda>c. c \<noteq> CHR ''?'') u)) else None),
         url_fragment = None, url_isRaw = False\<rparr>),
      omniClientGetBranchAndCheckpointFromQuery = (\<lambda>q.
        if q = Some ''&3'' then Some \<lparr>bc_branch = [], bc_checkpoint = 3\<rparr> else None),
      omniClientMakeQueryFromBranchAndCheckpoint = (\<lambda>b c. Some b),
      omniClientMakeUrl = (\<lambda>u.
        Some ((case url_path u of None \<Rightarrow> [] | Some p \<Rightarrow> p)
              @ (case url_query u of None \<Rightarrow> []
                 | Some q \<Rightarrow> if q = [] then [] else CHR ''?'' # q)))\<rparr>"

section \<open>helloWorld.cpp and omniSimpleSensor.cpp: the demo geometry\<close>






subsection \<open>helloWorld.cpp\<close>










subsection \<open>omniSimpleSensor.cpp\<close>







section \<open>Console input\<close>

text \<open>
  Standard input is the list of characters not yet read. \<open>getchar()\<close> returns \<open>EOF\<close> (-1)
  at the end of input, which the code stores in a \<open>char\<close>: the byte \<open>0xFF\<close>. The
  extraction operators of \<open>std::cin\<close> first skip white space (\<open>isspace\<close> in the "C"
  locale); at the end of input they fail and leave their target unchanged, which is the
  result \<open>None\<close>.
\<close>

definition isspace :: "char \<Rightarrow> bool" where
  "isspace c = (c = SP \<or> c = TAB \<or> c = NL \<or> c = CHR 0x0B \<or> c = CHR 0x0C \<or> c = CR)"

definition getchar :: "string \<Rightarrow> char \<times> string" where
  "getchar inp = (case inp of [] \<Rightarrow> (CHR 0xFF, []) | c # cs \<Rightarrow> (c, cs))"

text \<open>\<open>std::cin >> c\<close> for a \<open>char c\<close>.\<close>

definition cin_char :: "string \<Rightarrow> char option \<times> string" where
  "cin_char inp =
     (case dropWhile isspace inp of [] \<Rightarrow> (None, []) | c # cs \<Rightarrow> (Some c, cs))"

text \<open>\<open>std::cin >> s\<close> for a \<open>std::string s\<close>: the characters up to the next white space.\<close>

definition cin_string :: "string \<Rightarrow> string option \<times> string" where
  "cin_string inp =
     (case dropWhile isspace inp of
        [] \<Rightarrow> (None, [])
      | c # cs \<Rightarrow> (Some (c # takeWhile (\<lambda>x. \<not> isspace x) cs),
                   dropWhile (\<lambda>x. \<not> isspace x) cs))"



section \<open>liveSession.cpp: findOrCreateSession\<close>

text \<open>
  \<open>std::isdigit\<close> in the "C" locale, and \<open>size_t(selection) - 0x30\<close>: the \<open>char\<close> is
  signed, its conversion to the 64-bit \<open>size_t\<close> extends the sign, and the subtraction
  wraps at \<open>2 ^ 64\<close>.
\<close>

definition isdigit :: "char \<Rightarrow> bool" where
  "isdigit c = (48 \<le> (of_char c :: nat) \<and> (of_char c :: nat) \<le> 57)"

definition size_t_of_char :: "char \<Rightarrow> nat" where
  "size_t_of_char c =
     (if (of_char c :: nat) < 128 then of_char c else 2 ^ 64 - 256 + of_char c)"

definition selectionIdx_of :: "char \<Rightarrow> nat" where
  "selectionIdx_of selection = (size_t_of_char selection + (2 ^ 64 - 0x30)) mod 2 ^ 64"

text \<open>
  How \<open>findOrCreateSession\<close> ends: the process exits with a code, or the function returns
  after joining a session. When no character can be read, \<open>selection\<close> is used without
  ever having a value.
\<close>

datatype session_outcome =
    Exited int
  | JoinedSession string
  | UninitializedSelection

text \<open>
  \<open>sessionList\<close> is the answer of \<open>getSessionNames()\<close>, and \<open>join name\<close> tells whether
  \<open>liveSession->join(name)\<close> returns a layer. The result is the outcome and the input
  left unread. The log output is not modelled.
\<close>

definition findOrCreateSession ::
  "string list \<Rightarrow> (string \<Rightarrow> bool) \<Rightarrow> string \<Rightarrow> session_outcome \<times> string" where
  "findOrCreateSession sessionList join inp =
     (case cin_char inp of
        (None, inp') \<Rightarrow> (UninitializedSelection, inp')
      | (Some selection, inp') \<Rightarrow>
          let selectionIdx = selectionIdx_of selection in
          if isdigit selection \<and> selectionIdx < length sessionList then
            (let sessionName = sessionList ! selectionIdx in
             if \<not> join sessionName then (Exited 1, inp') else (JoinedSession sessionName, inp'))
          else if CHR ''n'' = selection then
            (let (name, inp'') = cin_string inp';
                 sessionName = (case name of None \<Rightarrow> [] | Some s \<Rightarrow> s) in
             if \<not> join sessionName then (Exited 1, inp'') else (JoinedSession sessionName, inp''))
          else (Exited 0, inp'))"

section \<open>liveSession.cpp: endAndMergeSession\<close>

text \<open>
  \<open>LiveSessionChannel::MessageType\<close> is declared in the Connect SDK. The code names three
  of its enumerators; \<open>eOtherMessage\<close> stands for the rest.
\<close>

datatype MessageType = eGetUsers | eMergeStarted | eMergeFinished | eOtherMessage

text \<open>
  What the live-session sample does to the session, the stage and the log, in order. A
  log call is \<open>Log\<close>, whatever its text.
\<close>

datatype session_event =
    SendMessage MessageType
  | HasPrimSpecsInRootLayer
  | MergeToNewLayer
  | MergeToRoot
  | LiveProcess
  | FindGeomMesh
  | GetLocalTransformComponents
  | SetLocalTransform real
  | GetPrimAtPath string
  | GetValidChildNames string string
  | RenamePrim string string
  | GetLiveSessionConfig
  | GetUsers
  | Log

definition merge_accepted :: "string \<Rightarrow> bool" where
  "merge_accepted mergeOption =
     (\<not> (mergeOption \<noteq> ''n'' \<and> mergeOption \<noteq> ''r'' \<and> mergeOption \<noteq> ''c''))"

text \<open>
  The \<open>while\<close> loop of \<open>endAndMergeSession\<close>, with the local \<open>mergeOption\<close>, the unread
  input and the trace so far. A failed extraction leaves \<open>mergeOption\<close> as it was, so at
  the end of input the loop runs forever: the value \<open>None\<close>.
\<close>

partial_function (option) merge_prompt_loop ::
  "bool \<Rightarrow> string \<Rightarrow> string \<Rightarrow> session_event list \<Rightarrow>
   (string \<times> string \<times> session_event list) option" where
  "merge_prompt_loop rootHasSpecs mergeOption inp evs =
     (if mergeOption \<noteq> ''n'' \<and> mergeOption \<noteq> ''r'' \<and> mergeOption \<noteq> ''c'' then
        merge_prompt_loop rootHasSpecs
          (case fst (cin_string inp) of None \<Rightarrow> mergeOption | Some s \<Rightarrow> s)
          (snd (cin_string inp))
          (evs @ (if rootHasSpecs then [Log] else []) @ [Log])
      else Some (mergeOption, inp, evs))"

text \<open>
  \<open>endAndMergeSession(liveSession)\<close>: \<open>rootHasSpecs\<close> is the answer of
  \<open>hasPrimSpecsInRootLayer()\<close>. The result, when the function returns, is its return
  value, the unread input and the trace.
\<close>

definition endAndMergeSession ::
  "bool \<Rightarrow> string \<Rightarrow> (bool \<times> string \<times> session_event list) option" where
  "endAndMergeSession rootHasSpecs inp =
     (case merge_prompt_loop rootHasSpecs ''_'' inp
             [SendMessage eMergeStarted, HasPrimSpecsInRootLayer] of
        None \<Rightarrow> None
      | Some (mergeOption, inp', evs) \<Rightarrow>
          if mergeOption = ''n'' then Some (True, inp', evs @ [MergeToNewLayer])
          else if mergeOption = ''r'' then Some (True, inp', evs @ [MergeToRoot])
          else Some (False, inp', evs))"

text \<open>
  The white-space-delimited strings of an input, in order: what successive extractions
  \<open>std::cin >> s\<close> yield until one fails.
\<close>

function cin_strings :: "string \<Rightarrow> string list" where
  "cin_strings inp =
     (case fst (cin_string inp) of
        None \<Rightarrow> []
      | Some s \<Rightarrow> s # cin_strings (snd (cin_string inp)))"
  by pat_completeness auto
termination
proof (relation "measure length")
  show "wf (measure length)" by simp
next
  fix inp :: string and s
  assume "fst (cin_string inp) = Some s"
  then obtain c cs where d: "dropWhile isspace inp = c # cs"
    by (auto simp: cin_string_def split: list.splits)
  have "length (dropWhile (\<lambda>x. \<not> isspace x) cs) \<le> length cs"
    by (rule length_dropWhile_le)
  moreover have "length (c # cs) \<le> length inp"
    using length_dropWhile_le [of isspace inp] d by simp
  ultimately show "(snd (cin_string inp), inp) \<in> measure length"
    by (simp add: cin_string_def d)
qed

declare cin_strings.simps [simp del]

text \<open>The merges in a trace, in order.\<close>

fun merge_calls :: "session_event list \<Rightarrow> session_event list" where
  "merge_calls [] = []"
| "merge_calls (MergeToNewLayer # evs) = MergeToNewLayer # merge_calls evs"
| "merge_calls (MergeToRoot # evs) = MergeToRoot # merge_calls evs"
| "merge_calls (_ # evs) = merge_calls evs"

section \<open>liveSession.cpp: liveEdit\<close>

text \<open>
  The answers of the SDK that one pass of the loop can ask for: whether the mesh prim is
  valid and active, whether \<open>findGeomMesh\<close> finds a mesh and whether that one is valid and
  active, whether a prim exists at a path, the valid child name for a new name, whether
  the rename succeeds, whether the root layer has prim specs, the other users of the
  session, and the six values of the session configuration.
\<close>

record live_sdk =
  primValidActive :: bool
  foundMesh :: bool
  foundPrimValidActive :: bool
  primAtPath :: "string \<Rightarrow> bool"
  validChildName :: "string \<Rightarrow> string \<Rightarrow> string"
  renamePrimOk :: "string \<Rightarrow> string \<Rightarrow> bool"
  hasPrimSpecsInRootLayer :: bool
  sessionUsers :: "(string \<times> string) list"
  configValues :: "string list"

text \<open>The unread input, the local \<open>angle\<close> and the trace so far.\<close>

record live_state =
  ls_inp :: string
  ls_angle :: real
  ls_trace :: "session_event list"

text \<open>A string read by \<open>std::cin >> s\<close> into an empty \<open>std::string s\<close>.\<close>

definition read_string :: "string \<Rightarrow> string \<times> string" where
  "read_string inp =
     ((case fst (cin_string inp) of None \<Rightarrow> [] | Some s \<Rightarrow> s), snd (cin_string inp))"

text \<open>
  The \<open>switch (nextCommand)\<close> of \<open>liveEdit\<close>. The result is the new value of \<open>wait\<close> and
  the new state; \<open>None\<close> when \<open>endAndMergeSession\<close> does not return.
\<close>

definition liveEdit_switch ::
  "live_sdk \<Rightarrow> char \<Rightarrow> live_state \<Rightarrow> (bool \<times> live_state) option" where
  "liveEdit_switch sdk nextCommand st =
     (if nextCommand = CHR ''t'' then
        (let search = (if \<not> primValidActive sdk
                       then [Log, FindGeomMesh, Log] @ (if foundMesh sdk then [Log] else [])
                       else []);
             valid = (if \<not> primValidActive sdk
                      then foundMesh sdk \<and> foundPrimValidActive sdk else True) in
         if \<not> valid then Some (True, st\<lparr>ls_trace := ls_trace st @ search\<rparr>)
         else
           let angle = (if ls_angle st + 15 \<ge> 360 then 0 else ls_angle st + 15) in
           Some (True, st\<lparr>ls_angle := angle,
                          ls_trace := ls_trace st @ search @
                            [GetLocalTransformComponents, SetLocalTransform angle, Log,
                             LiveProcess]\<rparr>))
      else if nextCommand = CHR ''r'' then
        (let (primToRename, inp1) = read_string (ls_inp st) in
         if \<not> primAtPath sdk primToRename then
           Some (True, st\<lparr>ls_inp := inp1,
                          ls_trace := ls_trace st @ [Log, GetPrimAtPath primToRename, Log]\<rparr>)
         else
           let (newName, inp2) = read_string inp1;
               name0 = validChildName sdk primToRename newName in
           Some (True, st\<lparr>ls_inp := inp2,
                          ls_trace := ls_trace st @
                            [Log, GetPrimAtPath primToRename, Log,
                             GetValidChildNames primToRename newName,
                             RenamePrim primToRename name0] @
                            (if renamePrimOk sdk primToRename name0 then [LiveProcess, Log]
                             else [Log])\<rparr>))
      else if nextCommand = CHR ''o'' then
        Some (True, st\<lparr>ls_trace := ls_trace st @ [GetLiveSessionConfig, Log]\<rparr>)
      else if nextCommand = CHR ''u'' then
        Some (True, st\<lparr>ls_trace := ls_trace st @ [GetUsers, Log] @
                         (if sessionUsers sdk = [] then [Log] else []) @
                         map (\<lambda>user. Log) (sessionUsers sdk)\<rparr>)
      else if nextCommand = CHR ''g'' then
        Some (True, st\<lparr>ls_trace := ls_trace st @ [Log, SendMessage eGetUsers]\<rparr>)
      else if nextCommand = CHR ''c'' then
        Some (True, st\<lparr>ls_trace := ls_trace st @ [Log, GetLiveSessionConfig] @
                         map (\<lambda>v. Log) (filter (\<lambda>v. v \<noteq> []) (configValues sdk))\<rparr>)
      else if nextCommand = CHR ''m'' then
        (case endAndMergeSession (hasPrimSpecsInRootLayer sdk) (ls_inp st) of
           None \<Rightarrow> None
         | Some (merged, inp', evs) \<Rightarrow>
             Some (\<not> merged, st\<lparr>ls_inp := inp', ls_trace := ls_trace st @ [Log] @ evs\<rparr>))
      else if nextCommand = CHR 27 \<or> nextCommand = CHR ''q'' then
        Some (False, st\<lparr>ls_trace := ls_trace st @ [Log]\<rparr>)
      else Some (True, st\<lparr>ls_trace := ls_trace st @ [Log]\<rparr>))"

text \<open>
  One pass of the \<open>while (wait)\<close> loop. \<open>gStageMerged\<close> is the value of the global when the
  pass tests it. The pass ends with the loop going on, with \<open>wait\<close> false, or with the
  \<open>return\<close> of the merge test.
\<close>

datatype loop_end = GoesOn | WaitOver | ReturnedOnMerge

definition liveEdit_pass ::
  "live_sdk \<Rightarrow> bool \<Rightarrow> live_state \<Rightarrow> (loop_end \<times> live_state) option" where
  "liveEdit_pass sdk gStageMerged st =
     (let (nextCommand, inp') = getchar (ls_inp st);
          st1 = st\<lparr>ls_inp := inp'\<rparr> in
      if gStageMerged then Some (ReturnedOnMerge, st1)
      else
        case liveEdit_switch sdk nextCommand (st1\<lparr>ls_trace := ls_trace st1 @ [LiveProcess]\<rparr>) of
          None \<Rightarrow> None
        | Some (wait, st2) \<Rightarrow> Some (if wait then GoesOn else WaitOver, st2))"

section \<open>helloWorld.cpp: liveEdit\<close>









section \<open>omniSensorThread.cpp: DataStageWriterWorker::doWork\<close>





section \<open>omnicli.cpp: the update thread of main\<close>





section \<open>liveSession.cpp: liveEdit beside AppUpdate::run\<close>

text \<open>
  The loop over the messages of a channel in \<open>AppUpdate::run\<close>: the new value of
  \<open>gStageMerged\<close>.
\<close>

fun appUpdate_messages :: "MessageType list \<Rightarrow> bool \<Rightarrow> bool" where
  "appUpdate_messages [] gStageMerged = gStageMerged"
| "appUpdate_messages (msg # msgs) gStageMerged =
     appUpdate_messages msgs
       (if msg = eMergeStarted \<or> msg = eMergeFinished then True else gStageMerged)"

text \<open>
  The two threads run interleaved. The main thread's pass of the loop is three steps:
  the \<open>getchar\<close>, the test of \<open>gStageMerged\<close>, and the live update with the switch. A step
  of the channel thread is one \<open>processMessages\<close> with its loop. \<open>switched\<close> counts the
  times the switch was entered. Reads and writes of \<open>gStageMerged\<close> take effect in the
  order of the steps.
\<close>

datatype main_pc = AtGetchar | AtMergeTest char | AtSwitch char | LoopLeft

record live_system =
  gStageMerged :: bool
  pc :: main_pc
  main_state :: live_state
  switched :: nat

datatype thread_step = MainThread | ChannelThread "MessageType list"

definition system_step :: "live_sdk \<Rightarrow> thread_step \<Rightarrow> live_system \<Rightarrow> live_system option" where
  "system_step sdk t s =
     (case t of
        ChannelThread msgs \<Rightarrow>
          Some (s\<lparr>gStageMerged := appUpdate_messages msgs (gStageMerged s)\<rparr>)
      | MainThread \<Rightarrow>
          (case pc s of
             AtGetchar \<Rightarrow>
               Some (s\<lparr>pc := AtMergeTest (fst (getchar (ls_inp (main_state s)))),
                       main_state := (main_state s)
                         \<lparr>ls_inp := snd (getchar (ls_inp (main_state s)))\<rparr>\<rparr>)
           | AtMergeTest c \<Rightarrow>
               Some (if gStageMerged s then s\<lparr>pc := LoopLeft\<rparr> else s\<lparr>pc := AtSwitch c\<rparr>)
           | AtSwitch c \<Rightarrow>
               (case liveEdit_switch sdk c
                       ((main_state s)\<lparr>ls_trace := ls_trace (main_state s) @ [LiveProcess]\<rparr>) of
                  None \<Rightarrow> None
                | Some (wait, st') \<Rightarrow>
                    Some (s\<lparr>pc := (if wait then AtGetchar else LoopLeft),
                            main_state := st', switched := switched s + 1\<rparr>))
           | LoopLeft \<Rightarrow> Some s))"

fun system_run :: "live_sdk \<Rightarrow> thread_step list \<Rightarrow> live_system \<Rightarrow> live_system option" where
  "system_run sdk [] s = Some s"
| "system_run sdk (t # ts) s =
     (case system_step sdk t s of None \<Rightarrow> None | Some s' \<Rightarrow> system_run sdk ts s')"



chapter \<open>Properties\<close>

section \<open>omnicli.cpp: tokenize\<close>

lemma tokenize_loop_newline:
  "tokenize_loop (xs @ NL # ys) tokens token w q bc = tokenize_loop xs tokens token w q bc"
  by (induction xs arbitrary: tokens token w q bc) simp_all

lemma tokenize_loop_backslashes:
  "bc + k < 2 ^ 32 \<Longrightarrow>
   tokenize_loop (replicate k BS @ rest) tokens token w q bc =
   tokenize_loop rest tokens token (w \<and> k = 0) q (bc + k)"
proof (induction k arbitrary: bc w)
  case 0
  then show ?case by simp
next
  case (Suc k)
  have m: "(bc + 1) mod 2 ^ 32 = bc + 1" using Suc.prems by simp
  have "tokenize_loop (replicate (Suc k) BS @ rest) tokens token w q bc =
        tokenize_loop (replicate k BS @ rest) tokens token False q (bc + 1)"
    using m by (simp add: is_blank_def)
  also have "\<dots> = tokenize_loop rest tokens token (False \<and> k = 0) q (bc + 1 + k)"
    using Suc.prems by (intro Suc.IH) simp
  finally show ?case by simp
qed

lemma tokenize_loop_plain:
  assumes "\<forall>c \<in> set xs. c \<noteq> NL \<and> c \<noteq> BS \<and> c \<noteq> DQ"
  shows "(\<forall>tokens. tokenize_loop xs tokens [] True False 0 = tokens @ words_of xs) \<and>
         (\<forall>tokens token. token \<noteq> [] \<longrightarrow>
            tokenize_loop xs tokens token False False 0 =
            tokens @ (token @ takeWhile (\<lambda>x. \<not> is_blank x) xs)
                   # words_of (dropWhile (\<lambda>x. \<not> is_blank x) xs))"
  using assms
proof (induction xs)
  case Nil
  show ?case by (simp add: tokenize_end_def flush_backslashes_def)
next
  case (Cons c cs)
  then show ?case by (simp add: flush_backslashes_def)
qed

lemma tokenize_plain:
  assumes "\<forall>c \<in> set line. c \<noteq> BS \<and> c \<noteq> DQ"
  shows "tokenize line = words_of (takeWhile (\<lambda>c. c \<noteq> NL) line)"
proof -
  let ?pre = "takeWhile (\<lambda>c. c \<noteq> NL) line"
  have pre: "\<forall>c \<in> set ?pre. c \<noteq> NL \<and> c \<noteq> BS \<and> c \<noteq> DQ"
    using assms by (auto dest: set_takeWhileD)
  have id: "?pre @ dropWhile (\<lambda>c. c \<noteq> NL) line = line"
    by (rule takeWhile_dropWhile_id)
  have "tokenize_loop line [] [] True False 0 = tokenize_loop ?pre [] [] True False 0"
  proof (cases "dropWhile (\<lambda>c. c \<noteq> NL) line")
    case Nil
    have e: "?pre = line" using id unfolding Nil by (simp only: append_Nil2)
    show ?thesis by (simp only: e)
  next
    case (Cons d ds)
    have "d = NL" using hd_dropWhile [of "\<lambda>c. c \<noteq> NL" line] unfolding Cons by simp
    then have "line = ?pre @ NL # ds" using id unfolding Cons by simp
    then show ?thesis using tokenize_loop_newline [of ?pre ds "[]" "[]" True False 0] by simp
  qed
  then show ?thesis using tokenize_loop_plain [OF pre] by (simp add: tokenize_def)
qed

lemma tokenize_loop_even_quote:
  assumes "2 * n < 2 ^ 32"
  shows "tokenize_loop (replicate (2 * n) BS @ DQ # rest) tokens token w q 0 =
         tokenize_loop rest tokens (token @ replicate n BS) False (\<not> q) 0"
  using tokenize_loop_backslashes [of 0 "2 * n" "DQ # rest" tokens token w q] assms
  by (simp add: is_blank_def)

lemma tokenize_loop_odd_quote:
  assumes "2 * n + 1 < 2 ^ 32"
  shows "tokenize_loop (replicate (2 * n + 1) BS @ DQ # rest) tokens token w q 0 =
         tokenize_loop rest tokens (token @ replicate n BS @ [DQ]) False q 0"
  using tokenize_loop_backslashes [of 0 "2 * n + 1" "DQ # rest" tokens token w q] assms
  by (simp add: is_blank_def)

lemma tokenize_loop_literal_backslashes:
  assumes "k < 2 ^ 32" and "c \<noteq> BS" and "c \<noteq> DQ"
  shows "tokenize_loop (replicate k BS @ c # rest) tokens token w q 0 =
         tokenize_loop (c # rest) tokens (token @ replicate k BS) (w \<and> k = 0) q 0"
  using tokenize_loop_backslashes [of 0 k "c # rest" tokens token w q] assms
  by (simp add: flush_backslashes_def tokenize_end_def)

lemma tokenize_loop_trailing_backslashes:
  assumes "k < 2 ^ 32"
  shows "tokenize_loop (replicate k BS) tokens token w q 0 =
         tokenize_end tokens (token @ replicate k BS) 0"
  using tokenize_loop_backslashes [of 0 k "[]" tokens token w q] assms
  by (simp add: flush_backslashes_def tokenize_end_def)

lemma tokenize_end_0:
  "tokenize_end tokens token 0 = (if token = [] then tokens else tokens @ [token])"
  by (simp add: tokenize_end_def flush_backslashes_def)

lemma tokenize_loop_ordinary:
  assumes "d \<noteq> NL" and "d \<noteq> BS" and "d \<noteq> DQ" and "\<not> is_blank d"
  shows "tokenize_loop (d # rest) tokens token w q 0 =
         tokenize_loop rest tokens (token @ [d]) False q 0"
  using assms by (simp add: flush_backslashes_def)

lemma tokenize_loop_skip_blank:
  assumes "is_blank b"
  shows "tokenize_loop (b # rest) tokens token True q 0 = tokenize_loop rest tokens token True q 0"
proof -
  have "b \<noteq> NL" using assms by (auto simp: is_blank_def)
  then show ?thesis using assms by simp
qed

lemma tokenize_loop_in_quotes:
  assumes "\<forall>ch \<in> set body. ch \<noteq> NL \<and> ch \<noteq> BS \<and> ch \<noteq> DQ"
  shows "tokenize_loop (body @ rest) tokens token False True 0 =
         tokenize_loop rest tokens (token @ body) False True 0"
  using assms
  by (induction body arbitrary: token) (simp_all add: flush_backslashes_def)

lemma tokenize_loop_quoted:
  assumes "\<forall>ch \<in> set body. ch \<noteq> NL \<and> ch \<noteq> BS \<and> ch \<noteq> DQ"
  shows "tokenize_loop (DQ # body @ DQ # rest) tokens token w False 0 =
         tokenize_loop rest tokens (token @ body) False False 0"
proof -
  have "tokenize_loop (DQ # body @ DQ # rest) tokens token w False 0 =
        tokenize_loop (body @ DQ # rest) tokens token False True 0"
    by (simp add: is_blank_def)
  also have "\<dots> = tokenize_loop (DQ # rest) tokens (token @ body) False True 0"
    using assms by (rule tokenize_loop_in_quotes)
  also have "\<dots> = tokenize_loop rest tokens (token @ body) False False 0"
    by (simp add: is_blank_def)
  finally show ?thesis .
qed

text \<open>
  C8. \<open>tokenize\<close> follows the command-line rules its comment documents. \<open>tokenize\<close> runs
  its loop from no tokens, an empty token, in white space, outside quotes. The loop is
  given by what it does with the next character at every loop state (\<open>tokens\<close>, \<open>token\<close>,
  \<open>inWhiteSpace\<close>, \<open>inQuote\<close> arbitrary, the backslash counter 0, so that a run of
  backslashes is counted from its start): at the end of the line or at a newline it stops
  and keeps the current token if it is not empty; a space or tab is skipped in white
  space, ends the current token outside quotes, and is a character of the token inside
  quotes; \<open>2n\<close> backslashes and a double quote give \<open>n\<close> backslashes and toggle the
  quoting mode; \<open>2n+1\<close> backslashes and a double quote give \<open>n\<close> backslashes and a literal
  double quote, the mode unchanged; \<open>k\<close> backslashes before any other character, or at
  the end of the line, are \<open>k\<close> literal backslashes; every other character is appended to
  the token and leaves the quoting mode as it is. Consequently a quoted stretch of plain
  text is appended to the current token whatever white space it holds; everything from a
  newline on is ignored; and a line without double quotes and backslashes yields exactly
  its maximal space/tab-separated words (of the part before the first newline), in order.
  The backslash runs are shorter than \<open>2 ^ 32\<close>, the range of the counter (lines reach
  \<open>tokenize\<close> through a buffer of 5000 characters).
\<close>

theorem tokenize_windows_rules:
  assumes "2 * n + 1 < 2 ^ 32" and "k < 2 ^ 32"
    and "is_blank b"
    and "c \<noteq> BS" and "c \<noteq> DQ"
    and "\<forall>ch \<in> set line. ch \<noteq> BS \<and> ch \<noteq> DQ"
    and "d \<noteq> NL" and "d \<noteq> BS" and "d \<noteq> DQ" and "\<not> is_blank d"
    and "\<forall>ch \<in> set body. ch \<noteq> NL \<and> ch \<noteq> BS \<and> ch \<noteq> DQ"
  shows "tokenize_loop (b # rest) tokens token False False 0 =
           tokenize_loop rest (tokens @ [token]) [] True False 0
       \<and> tokenize_loop (b # rest) tokens token False True 0 =
           tokenize_loop rest tokens (token @ [b]) False True 0
       \<and> tokenize_loop (replicate (2 * n) BS @ DQ # rest) tokens token w q 0 =
           tokenize_loop rest tokens (token @ replicate n BS) False (\<not> q) 0
       \<and> tokenize_loop (replicate (2 * n + 1) BS @ DQ # rest) tokens token w q 0 =
           tokenize_loop rest tokens (token @ replicate n BS @ [DQ]) False q 0
       \<and> tokenize_loop (replicate k BS @ c # rest) tokens token w q 0 =
           tokenize_loop (c # rest) tokens (token @ replicate k BS) (w \<and> k = 0) q 0
       \<and> tokenize_loop (replicate k BS) tokens token w q 0 =
           tokenize_end tokens (token @ replicate k BS) 0
       \<and> tokenize (xs @ NL # ys) = tokenize xs
       \<and> tokenize line = words_of (takeWhile (\<lambda>ch. ch \<noteq> NL) line)
       \<and> tokenize any_line = tokenize_loop any_line [] [] True False 0
       \<and> tokenize_loop [] tokens token w q 0 = (if token = [] then tokens else tokens @ [token])
       \<and> tokenize_loop (NL # rest) tokens token w q 0 =
           (if token = [] then tokens else tokens @ [token])
       \<and> tokenize_end tokens token 0 = (if token = [] then tokens else tokens @ [token])
       \<and> tokenize_loop (b # rest) tokens token True q 0 =
           tokenize_loop rest tokens token True q 0
       \<and> tokenize_loop (d # rest) tokens token w q 0 =
           tokenize_loop rest tokens (token @ [d]) False q 0
       \<and> tokenize_loop (DQ # body @ DQ # rest) tokens token w False 0 =
           tokenize_loop rest tokens (token @ body) False False 0"
proof -
  have b: "b \<noteq> NL" "b \<noteq> BS" "b \<noteq> DQ" using assms(3) by (auto simp: is_blank_def)
  have r1: "tokenize_loop (b # rest) tokens token False False 0 =
          tokenize_loop rest (tokens @ [token]) [] True False 0"
    using b assms(3) by (simp add: flush_backslashes_def)
  have r2: "tokenize_loop (b # rest) tokens token False True 0 =
          tokenize_loop rest tokens (token @ [b]) False True 0"
    using b by (simp add: flush_backslashes_def)
  have r3: "tokenize_loop (replicate (2 * n) BS @ DQ # rest) tokens token w q 0 =
          tokenize_loop rest tokens (token @ replicate n BS) False (\<not> q) 0"
    using assms(1) by (intro tokenize_loop_even_quote) simp
  have r4: "tokenize_loop (replicate (2 * n + 1) BS @ DQ # rest) tokens token w q 0 =
          tokenize_loop rest tokens (token @ replicate n BS @ [DQ]) False q 0"
    using assms(1) by (rule tokenize_loop_odd_quote)
  have r5: "tokenize_loop (replicate k BS @ c # rest) tokens token w q 0 =
          tokenize_loop (c # rest) tokens (token @ replicate k BS) (w \<and> k = 0) q 0"
    using assms(2,4,5) by (rule tokenize_loop_literal_backslashes)
  have r6: "tokenize_loop (replicate k BS) tokens token w q 0 =
          tokenize_end tokens (token @ replicate k BS) 0"
    using assms(2) by (rule tokenize_loop_trailing_backslashes)
  have r7: "tokenize (xs @ NL # ys) = tokenize xs"
    by (simp add: tokenize_def tokenize_loop_newline)
  have r8: "tokenize line = words_of (takeWhile (\<lambda>ch. ch \<noteq> NL) line)"
    using assms(6) by (rule tokenize_plain)
  have r9: "tokenize any_line = tokenize_loop any_line [] [] True False 0"
    by (rule tokenize_def)
  have r10: "tokenize_loop [] tokens token w q 0 =
          (if token = [] then tokens else tokens @ [token])"
    by (simp add: tokenize_end_0)
  have r11: "tokenize_loop (NL # rest) tokens token w q 0 =
          (if token = [] then tokens else tokens @ [token])"
    by (simp add: tokenize_end_0)
  have r12: "tokenize_end tokens token 0 = (if token = [] then tokens else tokens @ [token])"
    by (rule tokenize_end_0)
  have r13: "tokenize_loop (b # rest) tokens token True q 0 =
          tokenize_loop rest tokens token True q 0"
    using assms(3) by (rule tokenize_loop_skip_blank)
  have r14: "tokenize_loop (d # rest) tokens token w q 0 =
          tokenize_loop rest tokens (token @ [d]) False q 0"
    using assms(7,8,9,10) by (rule tokenize_loop_ordinary)
  have r15: "tokenize_loop (DQ # body @ DQ # rest) tokens token w False 0 =
          tokenize_loop rest tokens (token @ body) False False 0"
    using assms(11) by (rule tokenize_loop_quoted)
  from r1 r2 r3 r4 r5 r6 r7 r8 r9 r10 r11 r12 r13 r14 r15 show ?thesis by (intro conjI)
qed

theorem tokenize_windows_rules_witness:
  "2 * 1 + 1 < (2::nat) ^ 32 \<and> (2::nat) < 2 ^ 32 \<and> is_blank SP
   \<and> CHR ''x'' \<noteq> NL \<and> CHR ''x'' \<noteq> BS \<and> CHR ''x'' \<noteq> DQ \<and> \<not> is_blank CHR ''x''
   \<and> tokenize_loop (SP # ''yz'') [''t''] ''ab'' False False 0 = [''t'', ''ab'', ''yz'']
   \<and> tokenize_loop (SP # ''yz'') [''t''] ''ab'' False True 0 = [''t'', ''ab yz'']
   \<and> tokenize_loop (replicate (2 * 1) BS @ DQ # ''yz'') [''t''] ''ab'' False True 0
        = [''t'', ''ab'' @ [BS] @ ''yz'']
   \<and> tokenize_loop (replicate (2 * 1 + 1) BS @ DQ # ''yz'') [''t''] ''ab'' False True 0
        = [''t'', ''ab'' @ [BS, DQ] @ ''yz'']
   \<and> tokenize_loop (replicate 2 BS @ CHR ''x'' # ''yz'') [''t''] ''ab'' False True 0
        = [''t'', ''ab'' @ [BS, BS] @ ''xyz'']
   \<and> tokenize_loop (replicate 2 BS) [''t''] ''ab'' False True 0 = [''t'', ''ab'' @ [BS, BS]]
   \<and> tokenize (''ls  -l'' @ NL # ''junk'') = [''ls'', ''-l'']
   \<and> tokenize (''  cat  a.usd '') = [''cat'', ''a.usd'']
   \<and> tokenize_loop (CHR ''x'' # ''yz'') [''t''] ''ab'' False True 0 = [''t'', ''abxyz'']
   \<and> tokenize_loop (DQ # ''my file'' @ DQ # ''yz'') [''t''] ''ab'' False False 0
        = [''t'', ''abmy fileyz'']
   \<and> tokenize (''cat '' @ [DQ] @ ''my file'' @ [DQ]) = [''cat'', ''my file'']
   \<and> tokenize ([DQ] @ ''a b'' @ [DQ]) = [''a b'']
   \<and> tokenize (''a'' @ [DQ] @ ''b c'' @ [DQ] @ ''d e'') = [''ab cd'', ''e'']"
proof -
  have h: "2 * 1 + 1 < (2::nat) ^ 32" "(2::nat) < 2 ^ 32" "is_blank SP"
    "CHR ''x'' \<noteq> BS" "CHR ''x'' \<noteq> DQ"
    "\<forall>ch \<in> set ''  cat  a.usd ''. ch \<noteq> BS \<and> ch \<noteq> DQ"
    "CHR ''x'' \<noteq> NL" "CHR ''x'' \<noteq> BS" "CHR ''x'' \<noteq> DQ" "\<not> is_blank CHR ''x''"
    "\<forall>ch \<in> set ''my file''. ch \<noteq> NL \<and> ch \<noteq> BS \<and> ch \<noteq> DQ"
    by (simp_all add: is_blank_def)
  note r = tokenize_windows_rules [where rest = "''yz''" and tokens = "[''t'']"
      and token = "''ab''" and w = False and q = True and xs = "''ls  -l''"
      and ys = "''junk''" and any_line = "''cat '' @ [DQ] @ ''my file'' @ [DQ]", OF h]
  have e: "tokenize_loop ''yz'' ([''t''] @ [''ab'']) [] True False 0 = [''t'', ''ab'', ''yz'']"
    "tokenize_loop ''yz'' [''t''] (''ab'' @ [SP]) False True 0 = [''t'', ''ab yz'']"
    "tokenize_loop ''yz'' [''t''] (''ab'' @ replicate 1 BS) False (\<not> True) 0
        = [''t'', ''ab'' @ [BS] @ ''yz'']"
    "tokenize_loop ''yz'' [''t''] (''ab'' @ replicate 1 BS @ [DQ]) False True 0
        = [''t'', ''ab'' @ [BS, DQ] @ ''yz'']"
    "tokenize_loop (CHR ''x'' # ''yz'') [''t''] (''ab'' @ replicate 2 BS) (False \<and> (2::nat) = 0) True 0
        = [''t'', ''ab'' @ [BS, BS] @ ''xyz'']"
    "tokenize_end [''t''] (''ab'' @ replicate 2 BS) 0 = [''t'', ''ab'' @ [BS, BS]]"
    "tokenize ''ls  -l'' = [''ls'', ''-l'']"
    "words_of (takeWhile (\<lambda>ch. ch \<noteq> NL) ''  cat  a.usd '') = [''cat'', ''a.usd'']"
    "tokenize_loop ''yz'' [''t''] (''ab'' @ [CHR ''x'']) False True 0 = [''t'', ''abxyz'']"
    "tokenize_loop ''yz'' [''t''] (''ab'' @ ''my file'') False False 0 = [''t'', ''abmy fileyz'']"
    "tokenize_loop (''cat '' @ [DQ] @ ''my file'' @ [DQ]) [] [] True False 0 = [''cat'', ''my file'']"
    by code_simp+
  have f: "tokenize ([DQ] @ ''a b'' @ [DQ]) = [''a b'']"
    "tokenize (''a'' @ [DQ] @ ''b c'' @ [DQ] @ ''d e'') = [''ab cd'', ''e'']"
    by code_simp+
  show ?thesis using h(1-5,7,10) r e f by simp
qed

section \<open>omnicli.cpp: setacls\<close>

lemma of_char_toupper:
  "(of_char (toupper c) :: nat) =
     (if 97 \<le> (of_char c :: nat) \<and> (of_char c :: nat) \<le> 122 then of_char c - 32 else of_char c)"
  by (auto simp add: toupper_def Let_def)

lemma char_eq_code: "(c = d) = ((of_char c :: nat) = of_char d)"
  by simp

lemma toupper_A: "toupper c = CHR ''A'' \<longleftrightarrow> c = CHR ''A'' \<or> c = CHR ''a''"
  unfolding char_eq_code [of _ "CHR ''A''"] char_eq_code [of _ "CHR ''a''"] of_char_toupper
  by auto

lemma toupper_W: "toupper c = CHR ''W'' \<longleftrightarrow> c = CHR ''W'' \<or> c = CHR ''w''"
  unfolding char_eq_code [of _ "CHR ''W''"] char_eq_code [of _ "CHR ''w''"] of_char_toupper
  by auto

lemma toupper_R: "toupper c = CHR ''R'' \<longleftrightarrow> c = CHR ''R'' \<or> c = CHR ''r''"
  unfolding char_eq_code [of _ "CHR ''R''"] char_eq_code [of _ "CHR ''r''"] of_char_toupper
  by auto

lemma toupper_minus: "toupper c = CHR ''-'' \<longleftrightarrow> c = CHR ''-''"
  unfolding char_eq_code [of _ "CHR ''-''"] of_char_toupper
  by auto

lemma acl_loop_filter:
  "acl_loop name xs entries found =
     (entries @ filter (\<lambda>e. fst e \<noteq> name) xs, found \<or> name \<in> fst ` set xs)"
  by (induction xs arbitrary: entries found) auto

lemma bit_if_0: "bit (if C then x else (0 :: 16 word)) n = (C \<and> bit x n)"
  by simp

lemma access_bits_Cons:
  "access_bits fl (p # ps) =
     (if p = CHR ''r'' \<or> p = CHR ''R'' then fOmniClientAccess_Read fl else 0)
     OR (if p = CHR ''w'' \<or> p = CHR ''W'' then fOmniClientAccess_Write fl else 0)
     OR (if p = CHR ''a'' \<or> p = CHR ''A'' then fOmniClientAccess_Admin fl else 0)
     OR access_bits fl ps"
  apply (rule bit_eqI)
  unfolding access_bits_def bit_or_iff bit_if_0 set_simps insert_iff
  apply blast
  done

lemma parse_access_Some:
  "parse_access fl s rm acc = Some (rm', acc') \<Longrightarrow>
     rm' = (rm \<or> CHR ''-'' \<in> set s) \<and> acc' = acc OR access_bits fl s"
proof (induction s arbitrary: rm acc)
  case Nil
  then show ?case by (simp add: access_bits_def)
next
  case (Cons p ps)
  have notin: "toupper p \<noteq> CHR ''A'' \<Longrightarrow> toupper p \<noteq> CHR ''W'' \<Longrightarrow> toupper p \<noteq> CHR ''R'' \<Longrightarrow>
     toupper p \<noteq> CHR ''-'' \<Longrightarrow> False"
    using Cons.prems by simp
  consider (A) "toupper p = CHR ''A''"
    | (W) "toupper p \<noteq> CHR ''A''" "toupper p = CHR ''W''"
    | (R) "toupper p \<noteq> CHR ''A''" "toupper p \<noteq> CHR ''W''" "toupper p = CHR ''R''"
    | (M) "toupper p \<noteq> CHR ''A''" "toupper p \<noteq> CHR ''W''" "toupper p \<noteq> CHR ''R''"
          "toupper p = CHR ''-''"
    using notin by blast
  then show ?case
  proof cases
    case A
    then have "parse_access fl ps rm (acc OR fOmniClientAccess_Admin fl) = Some (rm', acc')"
      using Cons.prems by simp
    from Cons.IH [OF this] have ih: "rm' = (rm \<or> CHR ''-'' \<in> set ps)"
      "acc' = acc OR fOmniClientAccess_Admin fl OR access_bits fl ps" by (simp_all add: or.assoc)
    have p: "p = CHR ''A'' \<or> p = CHR ''a''" using A by (simp add: toupper_A)
    then have "access_bits fl (p # ps) = fOmniClientAccess_Admin fl OR access_bits fl ps"
      by (auto simp: access_bits_Cons)
    with ih p show ?thesis by auto
  next
    case W
    then have "parse_access fl ps rm (acc OR fOmniClientAccess_Write fl) = Some (rm', acc')"
      using Cons.prems by simp
    from Cons.IH [OF this] have ih: "rm' = (rm \<or> CHR ''-'' \<in> set ps)"
      "acc' = acc OR fOmniClientAccess_Write fl OR access_bits fl ps" by (simp_all add: or.assoc)
    have p: "p = CHR ''W'' \<or> p = CHR ''w''" using W by (simp add: toupper_W)
    then have "access_bits fl (p # ps) = fOmniClientAccess_Write fl OR access_bits fl ps"
      by (auto simp: access_bits_Cons)
    with ih p show ?thesis by auto
  next
    case R
    then have "parse_access fl ps rm (acc OR fOmniClientAccess_Read fl) = Some (rm', acc')"
      using Cons.prems by simp
    from Cons.IH [OF this] have ih: "rm' = (rm \<or> CHR ''-'' \<in> set ps)"
      "acc' = acc OR fOmniClientAccess_Read fl OR access_bits fl ps" by (simp_all add: or.assoc)
    have p: "p = CHR ''R'' \<or> p = CHR ''r''" using R by (simp add: toupper_R)
    then have "access_bits fl (p # ps) = fOmniClientAccess_Read fl OR access_bits fl ps"
      by (auto simp: access_bits_Cons)
    with ih p show ?thesis by auto
  next
    case M
    then have "parse_access fl ps True acc = Some (rm', acc')"
      using Cons.prems by simp
    from Cons.IH [OF this] have ih: "rm'" "acc' = acc OR access_bits fl ps" by simp_all
    have p: "p = CHR ''-''" using M by (simp add: toupper_minus)
    then have "access_bits fl (p # ps) = access_bits fl ps"
      by (simp add: access_bits_Cons)
    with ih p show ?thesis by auto
  qed
qed

lemma setAcls_calls_append:
  "setAcls_calls (xs @ ys) = setAcls_calls xs @ setAcls_calls ys"
  by (induction xs rule: setAcls_calls.induct) simp_all

text \<open>
  C9. With enough arguments and an access string of known letters, \<open>removeEntry\<close> is set
  exactly when the access string contains \<open>-\<close>, and \<open>access\<close> has one flag for each of
  r, w, a present (in either case). \<open>setacls\<close> calls \<open>omniClientSetAcls\<close> exactly once, on
  the given URL, with the fetched entries whose name differs from the given name, in
  their order, followed (unless \<open>-\<close> was given) by one entry of the name and the parsed
  access; except that it makes no such call and returns \<open>EXIT_FAILURE\<close> when the fetch
  did not answer \<open>eOmniClientResult_Ok\<close>, or when \<open>-\<close> was given and no fetched entry has
  the name.
\<close>

theorem setacls_preserves_other_entries:
  assumes "length args > 3"
    and "parse_access fl (args ! 3) False 0 = Some (removeEntry, access)"
  shows "removeEntry = (CHR ''-'' \<in> set (args ! 3))
       \<and> access = access_bits fl (args ! 3)
       \<and> setAcls_calls (fst (setacls fl args (result, fetched) setAclsResult)) =
           (if result = eOmniClientResult_Ok
               \<and> \<not> (removeEntry \<and> args ! 2 \<notin> fst ` set fetched)
            then [(args ! 1,
                   filter (\<lambda>e. fst e \<noteq> args ! 2) fetched
                     @ (if removeEntry then [] else [(args ! 2, access)]))]
            else [])
       \<and> snd (setacls fl args (result, fetched) setAclsResult) =
           (if result = eOmniClientResult_Ok
               \<and> \<not> (removeEntry \<and> args ! 2 \<notin> fst ` set fetched)
            then resultToRetcode setAclsResult else EXIT_FAILURE)"
proof -
  from parse_access_Some [OF assms(2)]
  have p: "removeEntry = (CHR ''-'' \<in> set (args ! 3))" "access = access_bits fl (args ! 3)"
    by simp_all
  have n: "\<not> length args \<le> 3" using assms(1) by simp
  have calls: "setAcls_calls (fst (setacls fl args (result, fetched) setAclsResult)) =
           (if result = eOmniClientResult_Ok
               \<and> \<not> (removeEntry \<and> args ! 2 \<notin> fst ` set fetched)
            then [(args ! 1,
                   filter (\<lambda>e. fst e \<noteq> args ! 2) fetched
                     @ (if removeEntry then [] else [(args ! 2, access)]))]
            else [])"
    unfolding setacls_def Let_def
    by (simp add: n assms(2) acl_loop_filter setAcls_calls_append)
  have ret: "snd (setacls fl args (result, fetched) setAclsResult) =
           (if result = eOmniClientResult_Ok
               \<and> \<not> (removeEntry \<and> args ! 2 \<notin> fst ` set fetched)
            then resultToRetcode setAclsResult else EXIT_FAILURE)"
    unfolding setacls_def Let_def
    by (simp add: n assms(2) acl_loop_filter)
  from p calls ret show ?thesis by (intro conjI)
qed

theorem setacls_preserves_other_entries_witness:
  "length [''setacls'', ''omniverse://host/a.usd'', ''bob'', ''rW''] > 3
   \<and> parse_access \<lparr>fOmniClientAccess_Read = 1, fOmniClientAccess_Write = 2,
         fOmniClientAccess_Admin = 4\<rparr> ''rW'' False 0 = Some (False, 3)
   \<and> setAcls_calls (fst (setacls
         \<lparr>fOmniClientAccess_Read = 1, fOmniClientAccess_Write = 2, fOmniClientAccess_Admin = 4\<rparr>
         [''setacls'', ''omniverse://host/a.usd'', ''bob'', ''rW'']
         (eOmniClientResult_Ok, [(''alice'', 7), (''bob'', 1), (''carol'', 1)])
         eOmniClientResult_Ok))
       = [(''omniverse://host/a.usd'', [(''alice'', 7), (''carol'', 1), (''bob'', 3)])]
   \<and> snd (setacls
         \<lparr>fOmniClientAccess_Read = 1, fOmniClientAccess_Write = 2, fOmniClientAccess_Admin = 4\<rparr>
         [''setacls'', ''omniverse://host/a.usd'', ''bob'', ''rW'']
         (eOmniClientResult_Ok, [(''alice'', 7), (''bob'', 1), (''carol'', 1)])
         eOmniClientResult_Ok) = EXIT_SUCCESS"
proof -
  let ?fl = "\<lparr>fOmniClientAccess_Read = 1, fOmniClientAccess_Write = 2,
               fOmniClientAccess_Admin = 4\<rparr>"
  let ?args = "[''setacls'', ''omniverse://host/a.usd'', ''bob'', ''rW'']"
  have h1: "length ?args > 3" by simp
  have h2: "parse_access ?fl (?args ! 3) False 0 = Some (False, 3)"
    by (simp add: toupper_A toupper_W toupper_R toupper_minus)
  note r = setacls_preserves_other_entries [OF h1 h2,
      of eOmniClientResult_Ok "[(''alice'', 7), (''bob'', 1), (''carol'', 1)]"
         eOmniClientResult_Ok]
  show ?thesis using h1 h2 r by simp
qed

section \<open>omnicli.cpp: cat\<close>

lemma isAscii_loop_iff: "isAscii_loop bs = list_all is_text_byte bs"
  by (induction bs) (auto simp: is_text_byte_def)

lemma text_byte_not_nul: "is_text_byte b \<Longrightarrow> b \<noteq> CHR 0x00"
  unfolding is_text_byte_def by (cases "b = CHR 0x00") simp_all

lemma text_bytes_no_nul:
  "list_all is_text_byte bs \<Longrightarrow> takeWhile (\<lambda>b. b \<noteq> CHR 0x00) bs = bs"
  unfolding takeWhile_eq_all_conv list_all_iff by (blast dest: text_byte_not_nul)

text \<open>
  A \<open>uint32_t\<close> read from the buffer is little-endian: the byte at the lowest address is
  the lowest byte of the word printed.
\<close>

lemma le_word32_4:
  "le_word32 [b0, b1, b2, b3] =
     of_nat (of_char b0) + 256 * (of_nat (of_char b1) + 256 * (of_nat (of_char b2)
       + 256 * of_nat (of_char b3)))"
  by (simp add: le_word32_def)

text \<open>
  What the dump loop prints: for a size \<open>sz\<close> it makes \<open>(sz + 3) div 4\<close> steps, and step
  \<open>j\<close> prints the word of the four bytes at offsets \<open>4 * j\<close> to \<open>4 * j + 3\<close> of the
  memory, followed by a newline when \<open>4 * j\<close> is a multiple of 32 and by a space
  otherwise.
\<close>

lemma hex_loop_words:
  "hex_loop mem sz i =
     map (\<lambda>j. PrintHexWord (le_word32 (take 4 (drop (i + 4 * j) mem)))
                 (if (i + 4 * j) mod 32 = 0 then NL else SP))
         [0 ..< (sz - i + 3) div 4]"
proof (induction mem sz i rule: hex_loop.induct)
  case (1 mem sz i)
  show ?case
  proof (cases "i < sz")
    case False
    then have "(sz - i + 3) div 4 = 0" by simp
    then show ?thesis using False by (subst hex_loop.simps) simp
  next
    case True
    have n: "(sz - i + 3) div 4 = Suc ((sz - (i + 4) + 3) div 4)"
    proof (cases "sz - i < 4")
      case True
      then have "sz - (i + 4) = 0" by simp
      moreover have "(sz - i + 3) div 4 = 1" using True \<open>i < sz\<close> by simp
      ultimately show ?thesis by simp
    next
      case False
      then have "sz - i + 3 = (sz - (i + 4) + 3) + 4" by simp
      then show ?thesis by (simp only: div_add_self2)
    qed
    have "hex_loop mem sz i =
            PrintHexWord (le_word32 (take 4 (drop i mem))) (if i mod 32 = 0 then NL else SP)
              # hex_loop mem sz (i + 4)"
      using True by (subst hex_loop.simps) simp
    also have "hex_loop mem sz (i + 4) =
        map (\<lambda>j. PrintHexWord (le_word32 (take 4 (drop (i + 4 + 4 * j) mem)))
                 (if (i + 4 + 4 * j) mod 32 = 0 then NL else SP))
         [0 ..< (sz - (i + 4) + 3) div 4]"
      using "1.IH" [OF True] .
    finally show ?thesis
      unfolding n by (simp add: upt_conv_Cons map_Suc_upt [symmetric] add.assoc del: upt_Suc)
  qed
qed

text \<open>
  A word that lies within the buffer does not depend on the memory behind it, so the dump
  of a buffer whose size is a multiple of 4 is a dump of the buffer.
\<close>

lemma full_words_from_buffer:
  assumes "4 * j + 4 \<le> length content"
  shows "take 4 (drop (4 * j) (content @ beyond)) = take 4 (drop (4 * j) content)"
  using assms by simp

lemma hex_dump_of_whole_words:
  assumes "length content mod 4 = 0"
  shows "hex_loop (content @ beyond) (length content) 0 = hex_loop content (length content) 0"
proof -
  have le: "4 * j + 4 \<le> length content" if "j < (length content + 3) div 4" for j
    using that assms by presburger
  have "take 4 (drop (0 + 4 * j) (content @ beyond)) = take 4 (drop (0 + 4 * j) content)"
    if "j < (length content + 3) div 4" for j
    using le [OF that] by (simp add: add.commute)
  then show ?thesis
    unfolding hex_loop_words by (simp del: take_append drop_append)
qed

text \<open>
  With a URL argument, the return code of \<open>cat\<close> is \<open>resultToRetcode\<close> of the read's
  result, whatever the content. After a read that answered \<open>eOmniClientResult_Ok\<close>: a
  content of more than 1,000,000 bytes is not printed, only the notice with its size; a
  content within the limit is printed as it is, followed by a newline, exactly when
  every byte is a newline, a tab, a carriage return or in [32, 127); otherwise the words
  of \<open>hex_loop_words\<close> are printed, read from the buffer and the memory behind it.
\<close>

lemma cat_prints_by_content:
  assumes "length args > 1"
  shows "snd (cat args result content beyond) = resultToRetcode result
       \<and> fst (cat args eOmniClientResult_Ok content beyond) =
           [OmniClientReconnect (args ! 1), OmniClientReadFile (args ! 1)]
           @ (if length content > 1000000 then [PrintfTooLarge (length content)]
              else if list_all is_text_byte content then [Printf (content @ [NL])]
              else map (\<lambda>j. PrintHexWord (le_word32 (take 4 (drop (4 * j) (content @ beyond))))
                              (if (4 * j) mod 32 = 0 then NL else SP))
                       [0 ..< (length content + 3) div 4]
                   @ [Printf [NL]])"
proof -
  have n: "\<not> length args \<le> 1" using assms by simp
  have ret: "snd (cat args result content beyond) = resultToRetcode result"
    unfolding cat_def Let_def using n by simp
  have out: "fst (cat args eOmniClientResult_Ok content beyond) =
           [OmniClientReconnect (args ! 1), OmniClientReadFile (args ! 1)]
           @ (if length content > 1000000 then [PrintfTooLarge (length content)]
              else if list_all is_text_byte content then [Printf (content @ [NL])]
              else hex_loop (content @ beyond) (length content) 0 @ [Printf [NL]])"
    unfolding cat_def Let_def using n
    by (simp add: isAscii_loop_iff printf_text_def text_bytes_no_nul)
  from ret out show ?thesis unfolding hex_loop_words by simp
qed

lemma cat_prints_by_content_examples:
  "cat [''cat'', ''omniverse://host/a.txt''] eOmniClientResult_Ok (''hi'' @ [TAB] @ ''there'') []
       = ([OmniClientReconnect ''omniverse://host/a.txt'',
           OmniClientReadFile ''omniverse://host/a.txt'',
           Printf (''hi'' @ [TAB] @ ''there'' @ [NL])], EXIT_SUCCESS)
   \<and> cat [''cat'', ''omniverse://host/a.txt''] eOmniClientResult_Ok
         [CHR 0x7F, CHR ''A'', CHR ''B'', CHR ''C''] ''xy''
       = ([OmniClientReconnect ''omniverse://host/a.txt'',
           OmniClientReadFile ''omniverse://host/a.txt'',
           PrintHexWord 0x4342417F NL, Printf [NL]], EXIT_SUCCESS)
   \<and> cat [''cat'', ''omniverse://host/a.txt''] eOmniClientResult_Ok (replicate 1000001 CHR ''a'') []
       = ([OmniClientReconnect ''omniverse://host/a.txt'',
           OmniClientReadFile ''omniverse://host/a.txt'',
           PrintfTooLarge 1000001], EXIT_SUCCESS)
   \<and> cat [''cat'', ''omniverse://host/a.txt''] (eOmniClientResult_Other 7) [] []
       = ([OmniClientReconnect ''omniverse://host/a.txt'',
           OmniClientReadFile ''omniverse://host/a.txt'',
           PrintResult (eOmniClientResult_Other 7)], EXIT_FAILURE)"
proof -
  let ?args = "[''cat'', ''omniverse://host/a.txt'']"
  have h: "length ?args > 1" by simp
  note r1 = cat_prints_by_content [OF h, of eOmniClientResult_Ok "''hi'' @ [TAB] @ ''there''" "[]"]
  note r2 = cat_prints_by_content [OF h, of eOmniClientResult_Ok
              "[CHR 0x7F, CHR ''A'', CHR ''B'', CHR ''C'']" "''xy''"]
  note r3 = cat_prints_by_content [OF h, of eOmniClientResult_Ok "replicate 1000001 CHR ''a''" "[]"]
  have e1: "cat ?args eOmniClientResult_Ok (''hi'' @ [TAB] @ ''there'') []
       = ([OmniClientReconnect ''omniverse://host/a.txt'',
           OmniClientReadFile ''omniverse://host/a.txt'',
           Printf (''hi'' @ [TAB] @ ''there'' @ [NL])], EXIT_SUCCESS)"
    using r1 by (simp add: prod_eq_iff is_text_byte_def)
  have e2: "cat ?args eOmniClientResult_Ok [CHR 0x7F, CHR ''A'', CHR ''B'', CHR ''C''] ''xy''
       = ([OmniClientReconnect ''omniverse://host/a.txt'',
           OmniClientReadFile ''omniverse://host/a.txt'',
           PrintHexWord 0x4342417F NL, Printf [NL]], EXIT_SUCCESS)"
    using r2 by (simp add: prod_eq_iff is_text_byte_def le_word32_def)
  have e3: "cat ?args eOmniClientResult_Ok (replicate 1000001 CHR ''a'') []
       = ([OmniClientReconnect ''omniverse://host/a.txt'',
           OmniClientReadFile ''omniverse://host/a.txt'',
           PrintfTooLarge 1000001], EXIT_SUCCESS)"
    using r3 by (simp add: prod_eq_iff)
  have e4: "cat ?args (eOmniClientResult_Other 7) [] []
       = ([OmniClientReconnect ''omniverse://host/a.txt'',
           OmniClientReadFile ''omniverse://host/a.txt'',
           PrintResult (eOmniClientResult_Other 7)], EXIT_FAILURE)"
    by (simp add: cat_def Let_def)
  from e1 e2 e3 e4 show ?thesis by (intro conjI)
qed

text \<open>
  C10. For a file that is not text, \<open>cat\<close> does not always print a hexadecimal dump of the
  buffer. The loop of omnicli.cpp:630-635 advances by 4 and reads a whole \<open>uint32_t\<close> at
  each step while \<open>i < content->size\<close>, so when the size is not a multiple of 4 its last
  word takes bytes from behind the end of the buffer. A file of the five bytes
  80 61 62 63 64 is printed as the words 63626180 and 7a797864 when the three bytes behind
  the buffer are "xyz", and as 63626180 and 5a595864 when they are "XYZ": the same file
  and the same result of the read give two different outputs. The return code is
  \<open>EXIT_SUCCESS\<close> in both.
\<close>

theorem cat_hex_dump_reads_beyond_buffer:
  "cat [''cat'', ''omniverse://host/a.bin''] eOmniClientResult_Ok
       [CHR 0x80, CHR ''a'', CHR ''b'', CHR ''c'', CHR ''d''] ''xyz''
     = ([OmniClientReconnect ''omniverse://host/a.bin'',
         OmniClientReadFile ''omniverse://host/a.bin'',
         PrintHexWord 0x63626180 NL, PrintHexWord 0x7A797864 SP, Printf [NL]], EXIT_SUCCESS)
   \<and> cat [''cat'', ''omniverse://host/a.bin''] eOmniClientResult_Ok
       [CHR 0x80, CHR ''a'', CHR ''b'', CHR ''c'', CHR ''d''] ''XYZ''
     = ([OmniClientReconnect ''omniverse://host/a.bin'',
         OmniClientReadFile ''omniverse://host/a.bin'',
         PrintHexWord 0x63626180 NL, PrintHexWord 0x5A595864 SP, Printf [NL]], EXIT_SUCCESS)"
  by (simp add: cat_def hex_loop.simps le_word32_def)

section \<open>omnicli.cpp: makeCheckpoint and restoreCheckpoint\<close>

lemma resultToRetcode_success:
  "(resultToRetcode result = EXIT_SUCCESS) =
     (result = eOmniClientResult_Ok \<or> result = eOmniClientResult_OkLatest
      \<or> result = eOmniClientResult_OkNotYetFound)"
  by (cases result) (simp_all add: EXIT_SUCCESS_def EXIT_FAILURE_def)

lemma copy_calls_append: "copy_calls (xs @ ys) = copy_calls xs @ copy_calls ys"
  by (induction xs rule: copy_calls.induct) simp_all

lemma createCheckpoint_calls_append:
  "createCheckpoint_calls (xs @ ys) = createCheckpoint_calls xs @ createCheckpoint_calls ys"
  by (induction xs rule: createCheckpoint_calls.induct) simp_all

text \<open>
  C7. With a URL argument, \<open>makeCheckpoint\<close> calls \<open>omniClientCreateCheckpoint\<close> once, on
  that URL, with force set, and returns \<open>EXIT_SUCCESS\<close> exactly when the result is
  \<open>Ok\<close>, \<open>OkLatest\<close> or \<open>OkNotYetFound\<close>. \<open>restoreCheckpoint\<close>, once the URL is combined
  with the base URL and broken into its parts: when the library finds no checkpoint in
  the query it returns \<open>EXIT_FAILURE\<close> and calls \<open>omniClientCopy\<close> never; when it finds
  one (and the rebuilt query and URL fit their buffers) it calls \<open>omniClientCopy\<close> once,
  from the URL as given to the URL rebuilt from the same parts with the query made from
  the branch alone (checkpoint 0), and returns the code of the copy's result.
\<close>

theorem checkpoint_commands:
  assumes "length args > 1"
    and "omniClientCombineWithBaseUrl lib (args ! 1) = Some combined"
  shows "createCheckpoint_calls (fst (makeCheckpoint args result checkpointQuery)) =
           [(args ! 1, if length args > 2 then args ! 2 else [], True)]
       \<and> (snd (makeCheckpoint args result checkpointQuery) = EXIT_SUCCESS) =
           (result = eOmniClientResult_Ok \<or> result = eOmniClientResult_OkLatest
            \<or> result = eOmniClientResult_OkNotYetFound)
       \<and> (omniClientGetBranchAndCheckpointFromQuery lib
             (url_query (omniClientBreakUrl lib combined)) = None \<longrightarrow>
           snd (restoreCheckpoint lib args copyResult) = EXIT_FAILURE
           \<and> copy_calls (fst (restoreCheckpoint lib args copyResult)) = [])
       \<and> (omniClientGetBranchAndCheckpointFromQuery lib
             (url_query (omniClientBreakUrl lib combined)) = Some branchCheckpoint \<longrightarrow>
           omniClientMakeQueryFromBranchAndCheckpoint lib (bc_branch branchCheckpoint) 0
             = Some queryString \<longrightarrow>
           omniClientMakeUrl lib
             ((omniClientBreakUrl lib combined)\<lparr>url_query := Some queryString\<rparr>) = Some dstUrl \<longrightarrow>
           copy_calls (fst (restoreCheckpoint lib args copyResult)) = [(args ! 1, dstUrl)]
           \<and> snd (restoreCheckpoint lib args copyResult) = resultToRetcode copyResult)"
proof -
  have n: "\<not> length args \<le> 1" using assms(1) by simp
  have c1: "createCheckpoint_calls (fst (makeCheckpoint args result checkpointQuery)) =
           [(args ! 1, if length args > 2 then args ! 2 else [], True)]"
    unfolding makeCheckpoint_def Let_def using n by (simp add: createCheckpoint_calls_append)
  have c2: "(snd (makeCheckpoint args result checkpointQuery) = EXIT_SUCCESS) =
           (result = eOmniClientResult_Ok \<or> result = eOmniClientResult_OkLatest
            \<or> result = eOmniClientResult_OkNotYetFound)"
    unfolding makeCheckpoint_def Let_def using n by (simp add: resultToRetcode_success)
  have c3: "omniClientGetBranchAndCheckpointFromQuery lib
             (url_query (omniClientBreakUrl lib combined)) = None \<longrightarrow>
           snd (restoreCheckpoint lib args copyResult) = EXIT_FAILURE
           \<and> copy_calls (fst (restoreCheckpoint lib args copyResult)) = []"
    unfolding restoreCheckpoint_def Let_def using n assms(2) by simp
  have c4: "omniClientGetBranchAndCheckpointFromQuery lib
             (url_query (omniClientBreakUrl lib combined)) = Some branchCheckpoint \<longrightarrow>
           omniClientMakeQueryFromBranchAndCheckpoint lib (bc_branch branchCheckpoint) 0
             = Some queryString \<longrightarrow>
           omniClientMakeUrl lib
             ((omniClientBreakUrl lib combined)\<lparr>url_query := Some queryString\<rparr>) = Some dstUrl \<longrightarrow>
           copy_calls (fst (restoreCheckpoint lib args copyResult)) = [(args ! 1, dstUrl)]
           \<and> snd (restoreCheckpoint lib args copyResult) = resultToRetcode copyResult"
    unfolding restoreCheckpoint_def Let_def using n assms(2)
    by (simp add: copy_calls_append)
  from c1 c2 c3 c4 show ?thesis by (intro conjI)
qed

theorem checkpoint_commands_witness:
  "length [''restoreCheckpoint'', ''a.usd?&3''] > 1
   \<and> omniClientCombineWithBaseUrl example_url_lib ''a.usd?&3'' = Some ''omniverse://host/a.usd?&3''
   \<and> createCheckpoint_calls
         (fst (makeCheckpoint [''restoreCheckpoint'', ''a.usd?&3''] eOmniClientResult_OkLatest ''&4''))
       = [(''a.usd?&3'', [], True)]
   \<and> snd (makeCheckpoint [''restoreCheckpoint'', ''a.usd?&3''] eOmniClientResult_OkLatest ''&4'')
       = EXIT_SUCCESS
   \<and> copy_calls (fst (restoreCheckpoint example_url_lib [''restoreCheckpoint'', ''a.usd?&3'']
         eOmniClientResult_Ok)) = [(''a.usd?&3'', ''omniverse://host/a.usd'')]
   \<and> snd (restoreCheckpoint example_url_lib [''restoreCheckpoint'', ''a.usd?&3'']
         eOmniClientResult_Ok) = EXIT_SUCCESS
   \<and> omniClientCombineWithBaseUrl example_url_lib ''a.usd'' = Some ''omniverse://host/a.usd''
   \<and> copy_calls (fst (restoreCheckpoint example_url_lib [''restoreCheckpoint'', ''a.usd'']
         eOmniClientResult_Ok)) = []
   \<and> snd (restoreCheckpoint example_url_lib [''restoreCheckpoint'', ''a.usd'']
         eOmniClientResult_Ok) = EXIT_FAILURE"
proof -
  let ?a1 = "[''restoreCheckpoint'', ''a.usd?&3'']"
  let ?a2 = "[''restoreCheckpoint'', ''a.usd'']"
  have h1: "length ?a1 > 1" "length ?a2 > 1" by simp_all
  have h2: "omniClientCombineWithBaseUrl example_url_lib (?a1 ! 1) = Some ''omniverse://host/a.usd?&3''"
    "omniClientCombineWithBaseUrl example_url_lib (?a2 ! 1) = Some ''omniverse://host/a.usd''"
    by (simp_all add: example_url_lib_def)
  note r1 = checkpoint_commands [OF h1(1) h2(1), where result = eOmniClientResult_OkLatest
      and checkpointQuery = "''&4''"
      and branchCheckpoint = "\<lparr>bc_branch = [], bc_checkpoint = 3\<rparr>"
      and copyResult = eOmniClientResult_Ok and queryString = "[]"
      and dstUrl = "''omniverse://host/a.usd''"]
  note r2 = checkpoint_commands [OF h1(2) h2(2), where result = eOmniClientResult_OkLatest
      and checkpointQuery = "''&4''"
      and branchCheckpoint = "\<lparr>bc_branch = [], bc_checkpoint = 3\<rparr>"
      and copyResult = eOmniClientResult_Ok and queryString = "[]"
      and dstUrl = "''omniverse://host/a.usd''"]
  have e1: "createCheckpoint_calls (fst (makeCheckpoint ?a1 eOmniClientResult_OkLatest ''&4''))
       = [(''a.usd?&3'', [], True)]"
    "snd (makeCheckpoint ?a1 eOmniClientResult_OkLatest ''&4'') = EXIT_SUCCESS"
    "copy_calls (fst (restoreCheckpoint example_url_lib ?a1 eOmniClientResult_Ok))
       = [(''a.usd?&3'', ''omniverse://host/a.usd'')]"
    "snd (restoreCheckpoint example_url_lib ?a1 eOmniClientResult_Ok) = EXIT_SUCCESS"
    using r1 by (simp_all add: example_url_lib_def)
  have e2: "copy_calls (fst (restoreCheckpoint example_url_lib ?a2 eOmniClientResult_Ok)) = []"
    "snd (restoreCheckpoint example_url_lib ?a2 eOmniClientResult_Ok) = EXIT_FAILURE"
    using r2 by (simp_all add: example_url_lib_def)
  from h1(1) h2 e1 e2 show ?thesis by simp
qed

section \<open>helloWorld.cpp and omniSimpleSensor.cpp: the demo geometry\<close>






section \<open>liveSession.cpp: findOrCreateSession\<close>

lemma selectionIdx_of_digit:
  assumes "isdigit c"
  shows "selectionIdx_of c = of_char c - 48"
proof -
  define n :: nat where "n = of_char c"
  have r: "48 \<le> n" "n \<le> 57" using assms by (simp_all add: isdigit_def n_def)
  have "n + (2 ^ 64 - 0x30) = (n - 48) + 2 ^ 64" using r by simp
  then have "(n + (2 ^ 64 - 0x30)) mod 2 ^ 64 = (n - 48) mod 2 ^ 64"
    by (simp only: mod_add_self2)
  also have "\<dots> = n - 48" using r by simp
  finally show ?thesis
    using r unfolding selectionIdx_of_def size_t_of_char_def n_def by simp
qed

lemma isdigit_not_n: "isdigit c \<Longrightarrow> c \<noteq> CHR ''n''"
  unfolding isdigit_def by auto

text \<open>
  C4. When a selection character \<open>c\<close> is read (the first character that is not white
  space): if \<open>c\<close> is a decimal digit whose value \<open>d\<close> is below the number of listed
  sessions, the session at index \<open>d\<close> is joined; if \<open>c\<close> is \<open>n\<close>, the next
  white-space-delimited string is read and the session of that name is joined; for every
  other character the process exits with code 0; in the two joining cases a failed join
  exits with code 1. A session that is joined without \<open>n\<close> has an index below 10.
\<close>

theorem findOrCreateSession_selection:
  assumes "cin_char inp = (Some c, rest)"
  shows "(isdigit c \<and> of_char c - 48 < length sessionList \<longrightarrow>
            fst (findOrCreateSession sessionList join inp) =
              (if join (sessionList ! (of_char c - 48))
               then JoinedSession (sessionList ! (of_char c - 48)) else Exited 1))
       \<and> (c = CHR ''n'' \<longrightarrow>
            fst (findOrCreateSession sessionList join inp) =
              (let name = (case fst (cin_string rest) of None \<Rightarrow> [] | Some s \<Rightarrow> s)
               in if join name then JoinedSession name else Exited 1))
       \<and> (\<not> (isdigit c \<and> of_char c - 48 < length sessionList) \<and> c \<noteq> CHR ''n'' \<longrightarrow>
            fst (findOrCreateSession sessionList join inp) = Exited 0)
       \<and> (c \<noteq> CHR ''n'' \<and> fst (findOrCreateSession sessionList join inp) = JoinedSession s \<longrightarrow>
            (\<exists>i < 10. i < length sessionList \<and> s = sessionList ! i))"
proof -
  have d: "isdigit c \<Longrightarrow> selectionIdx_of c = of_char c - 48"
    by (rule selectionIdx_of_digit)
  have lt: "isdigit c \<Longrightarrow> (of_char c :: nat) - 48 < 10"
    by (simp add: isdigit_def) arith
  have p1: "isdigit c \<and> of_char c - 48 < length sessionList \<longrightarrow>
            fst (findOrCreateSession sessionList join inp) =
              (if join (sessionList ! (of_char c - 48))
               then JoinedSession (sessionList ! (of_char c - 48)) else Exited 1)"
    unfolding findOrCreateSession_def Let_def using assms d by auto
  have p2: "c = CHR ''n'' \<longrightarrow>
            fst (findOrCreateSession sessionList join inp) =
              (let name = (case fst (cin_string rest) of None \<Rightarrow> [] | Some s \<Rightarrow> s)
               in if join name then JoinedSession name else Exited 1)"
    unfolding findOrCreateSession_def Let_def using assms isdigit_not_n [of c]
    by (auto simp: split_beta)
  have p3: "\<not> (isdigit c \<and> of_char c - 48 < length sessionList) \<and> c \<noteq> CHR ''n'' \<longrightarrow>
            fst (findOrCreateSession sessionList join inp) = Exited 0"
    unfolding findOrCreateSession_def Let_def using assms d by auto
  have p4: "c \<noteq> CHR ''n'' \<and> fst (findOrCreateSession sessionList join inp) = JoinedSession s \<longrightarrow>
            (\<exists>i < 10. i < length sessionList \<and> s = sessionList ! i)"
  proof (intro impI, elim conjE)
    assume n: "c \<noteq> CHR ''n''" and j: "fst (findOrCreateSession sessionList join inp) = JoinedSession s"
    have dig: "isdigit c \<and> of_char c - 48 < length sessionList"
      using p3 n j by auto
    then have "s = sessionList ! (of_char c - 48)" using p1 j by (auto split: if_splits)
    then show "\<exists>i < 10. i < length sessionList \<and> s = sessionList ! i"
      using dig lt by blast
  qed
  from p1 p2 p3 p4 show ?thesis by (intro conjI)
qed

theorem findOrCreateSession_selection_witness:
  "cin_char (NL # ''1'') = (Some CHR ''1'', [])
   \<and> fst (findOrCreateSession [''alpha'', ''beta''] (\<lambda>s. s \<noteq> ''alpha'') (NL # ''1''))
       = JoinedSession ''beta''
   \<and> cin_char ''0'' = (Some CHR ''0'', [])
   \<and> fst (findOrCreateSession [''alpha'', ''beta''] (\<lambda>s. s \<noteq> ''alpha'') ''0'') = Exited 1
   \<and> cin_char ''n gamma'' = (Some CHR ''n'', '' gamma'')
   \<and> fst (findOrCreateSession [''alpha'', ''beta''] (\<lambda>s. s \<noteq> ''alpha'') ''n gamma'')
       = JoinedSession ''gamma''
   \<and> cin_char ''2'' = (Some CHR ''2'', [])
   \<and> fst (findOrCreateSession [''alpha'', ''beta''] (\<lambda>s. s \<noteq> ''alpha'') ''2'') = Exited 0"
proof -
  have h: "cin_char (NL # ''1'') = (Some CHR ''1'', [])"
    "cin_char ''0'' = (Some CHR ''0'', [])"
    "cin_char ''n gamma'' = (Some CHR ''n'', '' gamma'')"
    "cin_char ''2'' = (Some CHR ''2'', [])"
    by (simp_all add: cin_char_def isspace_def)
  note r1 = findOrCreateSession_selection [OF h(1), of "[''alpha'', ''beta'']"
      "\<lambda>s. s \<noteq> ''alpha''" "''beta''"]
  note r2 = findOrCreateSession_selection [OF h(2), of "[''alpha'', ''beta'']"
      "\<lambda>s. s \<noteq> ''alpha''" "''beta''"]
  note r3 = findOrCreateSession_selection [OF h(3), of "[''alpha'', ''beta'']"
      "\<lambda>s. s \<noteq> ''alpha''" "''beta''"]
  note r4 = findOrCreateSession_selection [OF h(4), of "[''alpha'', ''beta'']"
      "\<lambda>s. s \<noteq> ''alpha''" "''beta''"]
  have e1: "fst (findOrCreateSession [''alpha'', ''beta''] (\<lambda>s. s \<noteq> ''alpha'') (NL # ''1''))
       = JoinedSession ''beta''"
    using r1 by (simp add: isdigit_def)
  have e2: "fst (findOrCreateSession [''alpha'', ''beta''] (\<lambda>s. s \<noteq> ''alpha'') ''0'') = Exited 1"
    using r2 by (simp add: isdigit_def)
  have e3: "fst (findOrCreateSession [''alpha'', ''beta''] (\<lambda>s. s \<noteq> ''alpha'') ''n gamma'')
       = JoinedSession ''gamma''"
    using r3 by (simp add: cin_string_def isspace_def)
  have e4: "fst (findOrCreateSession [''alpha'', ''beta''] (\<lambda>s. s \<noteq> ''alpha'') ''2'') = Exited 0"
    using r4 by (simp add: isdigit_def)
  from h e1 e2 e3 e4 show ?thesis by simp
qed

section \<open>liveSession.cpp: endAndMergeSession\<close>

lemma merge_calls_append: "merge_calls (xs @ ys) = merge_calls xs @ merge_calls ys"
  by (induction xs rule: merge_calls.induct) simp_all

lemma merge_prompt_loop_unfold:
  "merge_prompt_loop rootHasSpecs mergeOption inp evs =
     (if \<not> merge_accepted mergeOption then
        merge_prompt_loop rootHasSpecs
          (case fst (cin_string inp) of None \<Rightarrow> mergeOption | Some s \<Rightarrow> s)
          (snd (cin_string inp))
          (evs @ (if rootHasSpecs then [Log] else []) @ [Log])
      else Some (mergeOption, inp, evs))"
  by (subst merge_prompt_loop.simps) (simp add: merge_accepted_def)

lemma merge_prompt_loop_returns:
  assumes "find merge_accepted (cin_strings inp) = Some t"
    and "\<not> merge_accepted mergeOption"
  shows "\<exists>inp' evs'. merge_prompt_loop rootHasSpecs mergeOption inp evs = Some (t, inp', evs @ evs')
           \<and> merge_calls evs' = []"
  using assms
proof (induction inp arbitrary: mergeOption evs rule: cin_strings.induct)
  case (1 inp)
  from "1.prems"(1) obtain s where s: "fst (cin_string inp) = Some s"
    by (subst (asm) cin_strings.simps) (auto split: option.splits)
  let ?inp' = "snd (cin_string inp)"
  let ?evs' = "evs @ (if rootHasSpecs then [Log] else []) @ [Log]"
  have unfold: "merge_prompt_loop rootHasSpecs mergeOption inp evs =
                merge_prompt_loop rootHasSpecs s ?inp' ?evs'"
    using "1.prems"(2) s
    by (subst merge_prompt_loop_unfold) simp
  have f: "find merge_accepted (s # cin_strings ?inp') = Some t"
    using "1.prems"(1) s by (subst (asm) cin_strings.simps) simp
  show ?case
  proof (cases "merge_accepted s")
    case True
    then have "t = s" using f by simp
    moreover have "merge_prompt_loop rootHasSpecs s ?inp' ?evs' = Some (s, ?inp', ?evs')"
      using True by (subst merge_prompt_loop_unfold) simp
    ultimately show ?thesis using unfold by (auto simp: merge_calls_append)
  next
    case False
    then have "find merge_accepted (cin_strings ?inp') = Some t" using f by simp
    from "1.IH" [OF s this False, of ?evs']
    obtain inp'' evs'' where
      "merge_prompt_loop rootHasSpecs s ?inp' ?evs' = Some (t, inp'', ?evs' @ evs'')"
      "merge_calls evs'' = []" by blast
    then show ?thesis using unfold
      by (intro exI [of _ inp''] exI [of _ "(if rootHasSpecs then [Log] else []) @ [Log] @ evs''"])
         (simp add: merge_calls_append)
  qed
qed

lemma cin_string_None:
  assumes "fst (cin_string inp) = None"
  shows "snd (cin_string inp) = []"
proof (cases "dropWhile isspace inp")
  case Nil
  show ?thesis unfolding cin_string_def Nil by simp
next
  case (Cons c cs)
  show ?thesis using assms unfolding cin_string_def Cons by simp
qed

lemma cin_strings_Nil: "cin_strings [] = []"
  by (subst cin_strings.simps) (simp add: cin_string_def)

lemma merge_prompt_loop_accepts:
  assumes "merge_prompt_loop rootHasSpecs mergeOption inp evs = Some y"
  shows "merge_accepted mergeOption \<or> find merge_accepted (cin_strings inp) \<noteq> None"
proof (rule merge_prompt_loop.raw_induct
    [where P = "\<lambda>r m i e y. merge_accepted m \<or> find merge_accepted (cin_strings i) \<noteq> None",
     OF _ assms])
  fix f rootHasSpecs mergeOption inp evs and y :: "string \<times> string \<times> session_event list"
  assume hyps: "\<And>r m i e y. f r m i e = Some y \<Longrightarrow>
                  merge_accepted m \<or> find merge_accepted (cin_strings i) \<noteq> None"
    "(if mergeOption \<noteq> ''n'' \<and> mergeOption \<noteq> ''r'' \<and> mergeOption \<noteq> ''c''
      then f rootHasSpecs
             (case fst (cin_string inp) of None \<Rightarrow> mergeOption | Some s \<Rightarrow> s)
             (snd (cin_string inp))
             (evs @ (if rootHasSpecs then [Log] else []) @ [Log])
      else Some (mergeOption, inp, evs)) = Some y"
  show "merge_accepted mergeOption \<or> find merge_accepted (cin_strings inp) \<noteq> None"
  proof (cases "merge_accepted mergeOption")
    case True
    then show ?thesis by simp
  next
    case False
    let ?m = "case fst (cin_string inp) of None \<Rightarrow> mergeOption | Some s \<Rightarrow> s"
    have call: "f rootHasSpecs ?m (snd (cin_string inp))
                  (evs @ (if rootHasSpecs then [Log] else []) @ [Log]) = Some y"
      using hyps(2) False by (simp add: merge_accepted_def)
    from hyps(1) [OF call]
    have ih: "merge_accepted ?m \<or> find merge_accepted (cin_strings (snd (cin_string inp))) \<noteq> None" .
    show ?thesis
    proof (cases "fst (cin_string inp)")
      case None
      then show ?thesis using ih False by (simp add: cin_string_None cin_strings_Nil)
    next
      case (Some s)
      then have "cin_strings inp = s # cin_strings (snd (cin_string inp))"
        by (subst cin_strings.simps) simp
      then show ?thesis using ih Some by auto
    qed
  qed
qed

lemma merge_prompt_loop_diverges:
  assumes "find merge_accepted (cin_strings inp) = None" and "\<not> merge_accepted mergeOption"
  shows "merge_prompt_loop rootHasSpecs mergeOption inp evs = None"
proof (cases "merge_prompt_loop rootHasSpecs mergeOption inp evs")
  case None
  then show ?thesis .
next
  case (Some y)
  from merge_prompt_loop_accepts [OF this] assms show ?thesis by simp
qed

text \<open>
  C1. When the white-space-delimited strings of the input contain one of \<open>n\<close>, \<open>r\<close>, \<open>c\<close>,
  and \<open>t\<close> is the first of them: \<open>endAndMergeSession\<close> returns; its trace starts with the
  \<open>eMergeStarted\<close> message, has no merge before its last event, and ends with
  \<open>mergeToNewLayer\<close> if \<open>t\<close> is \<open>n\<close>, with \<open>mergeToRoot\<close> if \<open>t\<close> is \<open>r\<close>, and with no merge if
  \<open>t\<close> is \<open>c\<close>; and it returns true unless \<open>t\<close> is \<open>c\<close>. When no such string is entered the
  function never returns.
\<close>

theorem endAndMergeSession_protocol:
  "case find merge_accepted (cin_strings inp) of
     None \<Rightarrow> endAndMergeSession rootHasSpecs inp = None
   | Some t \<Rightarrow>
       (t = ''n'' \<or> t = ''r'' \<or> t = ''c'')
       \<and> (\<exists>inp' prompts.
            endAndMergeSession rootHasSpecs inp =
              Some (t \<noteq> ''c'', inp',
                    SendMessage eMergeStarted # HasPrimSpecsInRootLayer # prompts
                      @ (if t = ''n'' then [MergeToNewLayer]
                         else if t = ''r'' then [MergeToRoot] else []))
            \<and> merge_calls prompts = [])"
proof (cases "find merge_accepted (cin_strings inp)")
  case None
  have "\<not> merge_accepted ''_''" by (simp add: merge_accepted_def)
  from merge_prompt_loop_diverges [OF None this]
  show ?thesis using None by (simp add: endAndMergeSession_def)
next
  case (Some t)
  have start: "\<not> merge_accepted ''_''" by (simp add: merge_accepted_def)
  have acc: "merge_accepted t" using Some by (auto simp: find_Some_iff)
  then have t: "t = ''n'' \<or> t = ''r'' \<or> t = ''c''" by (simp add: merge_accepted_def)
  from merge_prompt_loop_returns [OF Some start,
      of rootHasSpecs "[SendMessage eMergeStarted, HasPrimSpecsInRootLayer]"]
  obtain inp' prompts where
    l: "merge_prompt_loop rootHasSpecs ''_'' inp [SendMessage eMergeStarted, HasPrimSpecsInRootLayer]
          = Some (t, inp', [SendMessage eMergeStarted, HasPrimSpecsInRootLayer] @ prompts)"
    and m: "merge_calls prompts = []" by blast
  have "endAndMergeSession rootHasSpecs inp =
          Some (t \<noteq> ''c'', inp',
                SendMessage eMergeStarted # HasPrimSpecsInRootLayer # prompts
                  @ (if t = ''n'' then [MergeToNewLayer]
                     else if t = ''r'' then [MergeToRoot] else []))"
    using t unfolding endAndMergeSession_def l by auto
  with m t show ?thesis using Some by auto
qed

theorem endAndMergeSession_protocol_witness:
  "find merge_accepted (cin_strings (''x'' @ [NL] @ ''no r c'')) = Some ''r''
   \<and> (\<exists>inp' prompts.
        endAndMergeSession True (''x'' @ [NL] @ ''no r c'') =
          Some (True, inp',
                SendMessage eMergeStarted # HasPrimSpecsInRootLayer # prompts @ [MergeToRoot])
        \<and> merge_calls prompts = [])
   \<and> find merge_accepted (cin_strings ''x y'') = None
   \<and> endAndMergeSession True ''x y'' = None"
proof -
  have f1: "find merge_accepted (cin_strings (''x'' @ [NL] @ ''no r c'')) = Some ''r''"
    by (simp add: cin_strings.simps cin_string_def isspace_def merge_accepted_def)
  have f2: "find merge_accepted (cin_strings ''x y'') = None"
    by (simp add: cin_strings.simps cin_string_def isspace_def merge_accepted_def)
  note r1 = endAndMergeSession_protocol [where inp = "''x'' @ [NL] @ ''no r c''"
      and rootHasSpecs = True]
  note r2 = endAndMergeSession_protocol [where inp = "''x y''" and rootHasSpecs = True]
  have e1: "\<exists>inp' prompts.
        endAndMergeSession True (''x'' @ [NL] @ ''no r c'') =
          Some (True, inp',
                SendMessage eMergeStarted # HasPrimSpecsInRootLayer # prompts @ [MergeToRoot])
        \<and> merge_calls prompts = []"
    using r1 unfolding f1 by simp
  have e2: "endAndMergeSession True ''x y'' = None"
    using r2 unfolding f2 by simp
  from f1 f2 e1 e2 show ?thesis by (intro conjI)
qed

section \<open>The console menus of liveSession.cpp and helloWorld.cpp\<close>




section \<open>The live-update loops of helloWorld.cpp, omniSensorThread.cpp and omnicli.cpp\<close>










section \<open>liveSession.cpp: liveEdit beside AppUpdate::run\<close>






text \<open>Three steps of the main thread, with no step of the channel thread between them, are one pass of the loop.\<close>

lemma pass_is_three_steps:
  assumes "pc s = AtGetchar"
  shows "map_option (\<lambda>s'. (pc s', main_state s'))
           (system_run sdk [MainThread, MainThread, MainThread] s) =
         map_option (\<lambda>(e, st). (case e of GoesOn \<Rightarrow> AtGetchar | _ \<Rightarrow> LoopLeft, st))
           (liveEdit_pass sdk (gStageMerged s) (main_state s))"
  using assms
  by (cases "gStageMerged s")
     (auto simp: system_step_def liveEdit_pass_def split_beta Let_def
           split: option.splits)




end
